theory Spec2Isabelle
  imports Complex_Main
begin

section \<open>The glitch grid sketch (public/script.js)\<close>

text \<open>
  A shallow embedding of the p5.js sketch. JavaScript numbers are modelled as exact
  reals (\<^typ>\<open>real\<close>), array indices that the code computes with \<open>floor\<close> or by
  adding \<open>di\<close>, \<open>dj\<close> as \<^typ>\<open>int\<close>, loop counters as \<^typ>\<open>nat\<close>. The global
  variables of the script are the fields of one record; every handler takes the record
  and returns the updated one. What the host supplies (the clock \<open>millis()\<close>, the
  sliders, \<open>noise\<close>, \<open>amplitude.getLevel()\<close>, \<open>random\<close>) is an argument of the handler
  that reads it. Drawing and audio calls change none of the script's variables and are
  left out.
\<close>

subsection \<open>Globals\<close>

definition cols :: nat where
  "cols = 15"

definition rows :: nat where
  "rows = 10"

text \<open>\<open>createCanvas(1200, 800)\<close> fixes p5's \<open>width\<close> and \<open>height\<close>.\<close>

definition width :: real where
  "width = 1200"

definition height :: real where
  "height = 800"

definition contrast :: nat where
  "contrast = 3"

definition glitchDuration :: real where
  "glitchDuration = 1000"

definition glitchOverlayDuration :: real where
  "glitchOverlayDuration = 300"

text \<open>
  The callbacks handed to \<open>setTimeout\<close>. The closure of \<open>spreadGlitch\<close> captures
  \<open>i\<close>, \<open>j\<close> and \<open>depth\<close>; the other two callbacks only touch the audio objects.
\<close>

datatype task = SpreadStep int int int | DelayDisconnect | MusicPause

text \<open>
  \<open>tNoise\<close> is the script's variable \<open>t\<close>. \<open>timers\<close> is the host's list of pending
  \<open>setTimeout\<close> callbacks, each with the time it becomes due, in the order of the calls.
\<close>

record state =
  grid :: "bool list list"
  colWidths :: "real list"
  rowHeights :: "real list"
  tNoise :: real
  playing :: bool
  glitchActive :: bool
  glitchCells :: "(int \<times> int) list"
  glitchStart :: real
  glitchOverlayStart :: real
  glitchOverlayActive :: bool
  lastLevel :: real
  beatFlash :: "int list list"
  timers :: "(real \<times> task) list"

text \<open>The globals' initial values, after \<open>setup()\<close> has filled the arrays.\<close>

definition setup_globals :: state where
  "setup_globals = \<lparr> grid = replicate cols (replicate rows False),
                     colWidths = replicate cols (width / real cols),
                     rowHeights = replicate rows (height / real rows),
                     tNoise = 0, playing = False, glitchActive = False, glitchCells = [],
                     glitchStart = 0, glitchOverlayStart = 0, glitchOverlayActive = False,
                     lastLevel = 0,
                     beatFlash = replicate cols (replicate rows 0),
                     timers = [] \<rparr>"

text \<open>
  What one call of \<open>draw()\<close> reads from the host: the clock, the two sliders, the
  noise function, the audio level, and the values of the random generator. \<open>rnd k\<close> is
  the generator's \<open>k\<close>-th value inside the beat pass, before \<open>random(n)\<close> scales it by
  \<open>n\<close>; the random numbers that only move or colour what is drawn are not part of
  the model.
\<close>

record frame =
  millis :: real
  speed :: real
  strength :: real
  noise :: "real \<Rightarrow> real \<Rightarrow> real"
  level :: real
  rnd :: "nat \<Rightarrow> real"

subsection \<open>draw: expiry of the glitch and the noise clock\<close>

definition expireGlitch :: "state \<Rightarrow> real \<Rightarrow> state" where
  "expireGlitch s now =
     (if glitchActive s \<and> now > glitchStart s + glitchDuration
      then s\<lparr>glitchActive := False, glitchCells := []\<rparr>
      else s)"

definition advanceTime :: "state \<Rightarrow> real \<Rightarrow> state" where
  "advanceTime s sp = (if playing s then s\<lparr>tNoise := tNoise s + sp\<rparr> else s)"

subsection \<open>draw: the noise-driven partition\<close>

text \<open>
  \<open>rawSizes n nz tm str\<close> is the array \<open>rawC\<close> (or \<open>rawR\<close>) after its loop: entry \<open>i\<close> is
  \<open>pow(noise(i * 0.1, tm), contrast) * strength + 0.0001\<close>.
\<close>

definition rawSizes :: "nat \<Rightarrow> (real \<Rightarrow> real \<Rightarrow> real) \<Rightarrow> real \<Rightarrow> real \<Rightarrow> real list" where
  "rawSizes n nz tm str = map (\<lambda>i. nz (real i * 0.1) tm ^ contrast * str + 0.0001) [0..<n]"

text \<open>
  \<open>raw.reduce((a, b) => a + b, 0)\<close> is a left fold; the second loop divides each raw
  entry by the sum and scales it to the extent.
\<close>

definition normalizeSizes :: "real list \<Rightarrow> real \<Rightarrow> real list" where
  "normalizeSizes raw extent = (let sm = foldl (+) 0 raw in map (\<lambda>r. r / sm * extent) raw)"

definition recomputePartition :: "state \<Rightarrow> (real \<Rightarrow> real \<Rightarrow> real) \<Rightarrow> real \<Rightarrow> state" where
  "recomputePartition s nz str =
     s\<lparr>colWidths := normalizeSizes (rawSizes cols nz (tNoise s) str) width,
       rowHeights := normalizeSizes (rawSizes rows nz (tNoise s + 100) str) height\<rparr>"

subsection \<open>draw: the flash countdown of the render pass\<close>

text \<open>
  The render pass visits every cell once, rows in the outer loop and columns in the
  inner one. The only variable it changes is the cell's flash counter: a cell whose
  counter is positive is drawn as a flash and its counter is decremented
  (\<open>if (beatFlash[i][j] > 0) { ...; beatFlash[i][j]--; ...; continue; }\<close>).
\<close>

definition tickFlash :: "int list list \<Rightarrow> nat \<Rightarrow> nat \<Rightarrow> int list list" where
  "tickFlash bf i j =
     (if bf ! i ! j > 0 then bf[i := (bf ! i)[j := bf ! i ! j - 1]] else bf)"

definition renderRow :: "int list list \<Rightarrow> nat \<Rightarrow> int list list" where
  "renderRow bf j = fold (\<lambda>i b. tickFlash b i j) [0..<cols] bf"

definition renderPass :: "int list list \<Rightarrow> int list list" where
  "renderPass bf = fold (\<lambda>j b. renderRow b j) [0..<rows] bf"

definition renderCells :: "state \<Rightarrow> state" where
  "renderCells s = s\<lparr>beatFlash := renderPass (beatFlash s)\<rparr>"

subsection \<open>draw: beat detection\<close>

text \<open>
  p5's library function \<open>map(n, start1, stop1, start2, stop2)\<close>, called without its
  optional \<open>withinBounds\<close> argument: the linear map, with no clamp.
\<close>

definition p5_map :: "real \<Rightarrow> real \<Rightarrow> real \<Rightarrow> real \<Rightarrow> real \<Rightarrow> real" where
  "p5_map n start1 stop1 start2 stop2 =
     (n - start1) / (stop1 - start1) * (stop2 - start2) + start2"

definition flashCount :: "real \<Rightarrow> int" where
  "flashCount lv = \<lfloor>p5_map lv 0 0.4 0 15\<rfloor>"

text \<open>
  \<open>floor(random(n))\<close>, where \<open>random(n)\<close> is \<open>n\<close> times the generator's next value
  \<open>u\<close> (a number of the interval from 0 up to, not including, 1).
\<close>

definition randomIndex :: "real \<Rightarrow> nat \<Rightarrow> int" where
  "randomIndex u n = \<lfloor>u * real n\<rfloor>"

text \<open>
  The write \<open>a[i][j] = v\<close>. JavaScript throws a TypeError when \<open>a[i]\<close> is undefined and
  silently grows the inner array (or adds a property) when only \<open>j\<close> is out of range;
  the model reports both as an error value, so that a result \<open>Inr\<close> means that the write
  stayed inside the array.
\<close>

datatype access_error = OuterIndexOutOfRange | InnerIndexOutOfRange

definition writeCell :: "int list list \<Rightarrow> int \<Rightarrow> int \<Rightarrow> int \<Rightarrow> access_error + int list list" where
  "writeCell a i j v =
     (if i < 0 \<or> int (length a) \<le> i then Inl OuterIndexOutOfRange
      else if j < 0 \<or> int (length (a ! nat i)) \<le> j then Inl InnerIndexOutOfRange
      else Inr (a[nat i := (a ! nat i)[nat j := v]]))"

text \<open>
  The loop \<open>for (let k = 0; k < flashCount; k++)\<close>: \<open>flashLoop r k m bf\<close> runs the \<open>m\<close>
  iterations that start at counter \<open>k\<close>. Iteration \<open>k\<close> draws two random numbers,
  \<open>r (2 * k)\<close> for the column and \<open>r (2 * k + 1)\<close> for the row.
\<close>

fun flashLoop :: "(nat \<Rightarrow> real) \<Rightarrow> nat \<Rightarrow> nat \<Rightarrow> int list list \<Rightarrow> access_error + int list list" where
  "flashLoop r k 0 bf = Inr bf"
| "flashLoop r k (Suc m) bf =
     (let i = randomIndex (r (2 * k)) cols;
          j = randomIndex (r (2 * k + 1)) rows
      in case writeCell bf i j 4 of
           Inl e \<Rightarrow> Inl e
         | Inr bf' \<Rightarrow> flashLoop r (Suc k) m bf')"

definition beatDetect :: "state \<Rightarrow> real \<Rightarrow> (nat \<Rightarrow> real) \<Rightarrow> access_error + state" where
  "beatDetect s lv r =
     (if lv - lastLevel s > 0.1
      then (case flashLoop r 0 (nat (flashCount lv)) (beatFlash s) of
              Inl e \<Rightarrow> Inl e
            | Inr bf \<Rightarrow> Inr (s\<lparr>beatFlash := bf, lastLevel := lv\<rparr>))
      else Inr (s\<lparr>lastLevel := lv\<rparr>))"

subsection \<open>draw\<close>

definition draw :: "state \<Rightarrow> frame \<Rightarrow> access_error + state" where
  "draw s f =
     beatDetect
       (renderCells
          (recomputePartition (advanceTime (expireGlitch s (millis f)) (speed f))
             (noise f) (strength f)))
       (level f) (rnd f)"

subsection \<open>spreadGlitch and the timer queue\<close>

text \<open>
  \<open>spreadGlitch(i, j, depth)\<close> called at time \<open>now\<close>: the two guards, the push onto
  \<open>glitchCells\<close>, and the callback scheduled 40 ms later.
\<close>

definition spreadGlitch :: "state \<Rightarrow> real \<Rightarrow> int \<Rightarrow> int \<Rightarrow> int \<Rightarrow> state" where
  "spreadGlitch s now i j depth =
     (if depth \<le> 0 \<or> i < 0 \<or> i \<ge> int cols \<or> j < 0 \<or> j \<ge> int rows then s
      else if \<not> grid s ! nat i ! nat j then s
      else s\<lparr>glitchCells := glitchCells s @ [(i, j)],
             timers := timers s @ [(now + 40, SpreadStep i j depth)]\<rparr>)"

text \<open>The pairs \<open>(di, dj)\<close> in the order of the callback's two loops, \<open>(0, 0)\<close> skipped.\<close>

definition neighbourOffsets :: "(int \<times> int) list" where
  "neighbourOffsets =
     concat (map (\<lambda>di. concat (map (\<lambda>dj. if di \<noteq> 0 \<or> dj \<noteq> 0 then [(di, dj)] else [])
                                         [-1, 0, 1]))
                 [-1, 0, 1])"

definition spreadNeighbours :: "state \<Rightarrow> real \<Rightarrow> int \<Rightarrow> int \<Rightarrow> int \<Rightarrow> state" where
  "spreadNeighbours s now i j depth =
     fold (\<lambda>(di, dj) s'. spreadGlitch s' now (i + di) (j + dj) (depth - 1)) neighbourOffsets s"

text \<open>Running a callback at time \<open>now\<close>.\<close>

fun fireTask :: "state \<Rightarrow> real \<Rightarrow> task \<Rightarrow> state" where
  "fireTask s now (SpreadStep i j depth) = spreadNeighbours s now i j depth"
| "fireTask s now DelayDisconnect = s"
| "fireTask s now MusicPause = s"

text \<open>
  The host runs pending callbacks by due time, and among equal due times in the order
  of their \<open>setTimeout\<close> calls: \<open>popTimer\<close> takes the first entry of least due time out
  of the queue.
\<close>

fun popTimer :: "(real \<times> task) list \<Rightarrow> ((real \<times> task) \<times> (real \<times> task) list) option" where
  "popTimer [] = None"
| "popTimer (x # xs) =
     (case popTimer xs of
        None \<Rightarrow> Some (x, [])
      | Some (y, ys) \<Rightarrow> if fst x \<le> fst y then Some (x, xs) else Some (y, x # ys))"

text \<open>
  One callback: the next pending one, if it is due at \<open>now\<close>. The host promises no more
  than that a callback does not run before its due time.
\<close>

definition timerFires :: "state \<Rightarrow> real \<Rightarrow> state option" where
  "timerFires s now =
     (case popTimer (timers s) of
        None \<Rightarrow> None
      | Some ((due, tk), rest) \<Rightarrow>
          if due \<le> now then Some (fireTask (s\<lparr>timers := rest\<rparr>) now tk) else None)"

subsection \<open>mousePressed\<close>

text \<open>
  The scan that turns a mouse coordinate into an index: \<open>findCell m acc i ws\<close> is the loop
  at index \<open>i\<close> with accumulator \<open>acc\<close>, \<open>ws\<close> being the sizes from index \<open>i\<close> on. It
  returns the initial \<open>-1\<close> when no interval holds \<open>m\<close>.
\<close>

fun findCell :: "real \<Rightarrow> real \<Rightarrow> int \<Rightarrow> real list \<Rightarrow> int" where
  "findCell m acc i [] = -1"
| "findCell m acc i (w # ws) =
     (if m \<ge> acc \<and> m < acc + w then i else findCell m (acc + w) (i + 1) ws)"

definition mousePressed :: "state \<Rightarrow> real \<Rightarrow> real \<Rightarrow> real \<Rightarrow> state" where
  "mousePressed s now mouseX mouseY =
     (let ci = findCell mouseX 0 0 (take cols (colWidths s));
          rj = findCell mouseY 0 0 (take rows (rowHeights s))
      in if ci \<ge> 0 \<and> rj \<ge> 0 then
           if playing s then
             (let s1 = spreadGlitch
                         (s\<lparr>glitchCells := [], glitchActive := True, glitchStart := now,
                            glitchOverlayActive := True, glitchOverlayStart := now\<rparr>)
                         now ci rj 3
              in s1\<lparr>timers := timers s1 @ [(now + 300, DelayDisconnect)]\<rparr>)
           else s\<lparr>grid := (grid s)[nat ci := (grid s ! nat ci)[nat rj := \<not> grid s ! nat ci ! nat rj]]\<rparr>
         else s)"

subsection \<open>The two buttons\<close>

text \<open>
  The Play/Pause button: it flips \<open>playing\<close>; when the music stops, the callback that
  pauses the track is scheduled 500 ms later.
\<close>

definition playPausePressed :: "state \<Rightarrow> real \<Rightarrow> state" where
  "playPausePressed s now =
     (if \<not> playing s then s\<lparr>playing := True\<rparr>
      else s\<lparr>playing := False, timers := timers s @ [(now + 500, MusicPause)]\<rparr>)"

text \<open>
  The Clear button writes \<open>false\<close> into \<open>grid[i][j]\<close> for every \<open>i\<close> below \<open>cols\<close> and
  every \<open>j\<close> below \<open>rows\<close>, columns in the outer loop.
\<close>

definition clearCell :: "bool list list \<Rightarrow> nat \<Rightarrow> nat \<Rightarrow> bool list list" where
  "clearCell g i j = g[i := (g ! i)[j := False]]"

definition clearPressed :: "state \<Rightarrow> state" where
  "clearPressed s =
     s\<lparr>grid := fold (\<lambda>i g. fold (\<lambda>j g'. clearCell g' i j) [0..<rows] g) [0..<cols] (grid s)\<rparr>"

subsection \<open>The events of a run\<close>

text \<open>
  What the host can do to the sketch after \<open>setup()\<close>: draw a frame, deliver a mouse
  click (at a time and a position), let the timer queue run its next callback if one is
  due, or deliver a click on one of the two buttons.
\<close>

datatype event =
    Draw frame
  | MousePressed real real real
  | TimerTick real
  | PlayPausePressed real
  | ClearPressed

fun handle :: "state \<Rightarrow> event \<Rightarrow> access_error + state" where
  "handle s (Draw f) = draw s f"
| "handle s (MousePressed now x y) = Inr (mousePressed s now x y)"
| "handle s (TimerTick now) = Inr (case timerFires s now of None \<Rightarrow> s | Some s' \<Rightarrow> s')"
| "handle s (PlayPausePressed now) = Inr (playPausePressed s now)"
| "handle s ClearPressed = Inr (clearPressed s)"

text \<open>A run of the sketch stops at the first handler that fails.\<close>

fun run :: "state \<Rightarrow> event list \<Rightarrow> access_error + state" where
  "run s [] = Inr s"
| "run s (e # es) = (case handle s e of Inl err \<Rightarrow> Inl err | Inr s' \<Rightarrow> run s' es)"

text \<open>The frames of a list of events.\<close>

fun framesOf :: "event list \<Rightarrow> frame list" where
  "framesOf [] = []"
| "framesOf (Draw f # es) = f # framesOf es"
| "framesOf (e # es) = framesOf es"

subsection \<open>A whole wave: running the timer queue dry\<close>

text \<open>
  \<open>runTimers\<close> lets the host run every pending callback, each at its due time, until
  none is left. It terminates because a callback of depth \<open>d\<close> schedules at most eight
  callbacks of depth \<open>d - 1\<close>: the queue's weight, with \<open>9 ^ d\<close> for a callback of depth
  \<open>d\<close>, falls at every step.
\<close>

definition taskWeight :: "task \<Rightarrow> nat" where
  "taskWeight tk = (case tk of SpreadStep i j d \<Rightarrow> 9 ^ nat d | _ \<Rightarrow> 1)"

definition queueWeight :: "(real \<times> task) list \<Rightarrow> nat" where
  "queueWeight ts = sum_list (map (\<lambda>x. taskWeight (snd x)) ts)"

lemma popTimer_None: "popTimer ts = None \<longleftrightarrow> ts = []"
  by (cases ts) (auto split: option.splits prod.splits)

lemma popTimer_weight:
  "popTimer ts = Some (x, rest) \<Longrightarrow> queueWeight ts = taskWeight (snd x) + queueWeight rest"
  by (induction ts arbitrary: x rest)
     (auto simp: queueWeight_def popTimer_None split: option.splits if_splits prod.splits)

lemma spreadGlitch_timers:
  "timers (spreadGlitch s now i j d) = timers s \<or>
   (0 < d \<and> timers (spreadGlitch s now i j d) = timers s @ [(now + 40, SpreadStep i j d)])"
  by (simp add: spreadGlitch_def)

lemma spreadGlitch_weight:
  "queueWeight (timers (spreadGlitch s now i j d)) \<le> queueWeight (timers s) + (if 0 < d then 9 ^ nat d else 0)"
  using spreadGlitch_timers [of s now i j d]
  by (auto simp: queueWeight_def taskWeight_def)

lemma fold_spread_weight:
  "queueWeight (timers (fold (\<lambda>(di, dj) s'. spreadGlitch s' now (i + di) (j + dj) d) offs s))
     \<le> queueWeight (timers s) + length offs * (if 0 < d then 9 ^ nat d else 0)"
proof (induction offs arbitrary: s)
  case Nil
  then show ?case by simp
next
  case (Cons a offs)
  obtain di dj where a: "a = (di, dj)" by (cases a)
  have "queueWeight (timers (fold (\<lambda>(di, dj) s'. spreadGlitch s' now (i + di) (j + dj) d) offs
          (spreadGlitch s now (i + di) (j + dj) d)))
        \<le> queueWeight (timers (spreadGlitch s now (i + di) (j + dj) d))
            + length offs * (if 0 < d then 9 ^ nat d else 0)"
    by (rule Cons.IH)
  also have "\<dots> \<le> (queueWeight (timers s) + (if 0 < d then 9 ^ nat d else 0))
            + length offs * (if 0 < d then 9 ^ nat d else 0)"
    using spreadGlitch_weight [of s now "i + di" "j + dj" d] by simp
  finally show ?case by (simp add: a)
qed

lemma neighbourOffsets_length: "length neighbourOffsets = 8"
  by (simp add: neighbourOffsets_def)

lemma fireTask_weight:
  "queueWeight (timers (fireTask s now tk)) < queueWeight (timers s) + taskWeight tk"
proof (cases tk)
  case (SpreadStep i j d)
  have le: "queueWeight (timers (spreadNeighbours s now i j d))
        \<le> queueWeight (timers s) + 8 * (if 0 < d - 1 then 9 ^ nat (d - 1) else 0)"
    unfolding spreadNeighbours_def
    using fold_spread_weight [of now i j "d - 1" neighbourOffsets s]
    by (simp add: neighbourOffsets_length)
  have "8 * (if 0 < d - 1 then 9 ^ nat (d - 1) else 0) < (9::nat) ^ nat d"
  proof (cases "0 < d - 1")
    case True
    then have "nat d = Suc (nat (d - 1))" by simp
    then show ?thesis using True by simp
  next
    case False
    then show ?thesis by simp
  qed
  with le show ?thesis by (simp add: SpreadStep taskWeight_def)
qed (simp_all add: taskWeight_def)

text \<open>The queue is run in the host's order: least due time first.\<close>

function runTimers :: "state \<Rightarrow> state" where
  "runTimers s =
     (case popTimer (timers s) of
        None \<Rightarrow> s
      | Some ((due, tk), rest) \<Rightarrow> runTimers (fireTask (s\<lparr>timers := rest\<rparr>) due tk))"
  by pat_completeness auto

termination runTimers
proof (relation "measure (\<lambda>s. queueWeight (timers s))")
  show "wf (measure (\<lambda>s. queueWeight (timers s)))" by simp
next
  fix s :: state and x rest y due tk
  assume "popTimer (timers s) = Some x" and  "(y, rest) = x" and "(due, tk) = y"
  then have p: "popTimer (timers s) = Some ((due, tk), rest)" by simp
  show "(fireTask (s\<lparr>timers := rest\<rparr>) due tk, s) \<in> measure (\<lambda>s. queueWeight (timers s))"
    using popTimer_weight [OF p] fireTask_weight [of "s\<lparr>timers := rest\<rparr>" due tk]
    by simp
qed

declare runTimers.simps [simp del]

subsection \<open>Vocabulary of the properties\<close>

text \<open>
  A cell is inside the grid when both indices pass the bounds test of \<open>spreadGlitch\<close>;
  it is filled when its entry of \<open>grid\<close> is true. \<open>ringDist\<close> counts the rings of
  neighbours between two cells.
\<close>

definition inGrid :: "int \<times> int \<Rightarrow> bool" where
  "inGrid c = (0 \<le> fst c \<and> fst c < int cols \<and> 0 \<le> snd c \<and> snd c < int rows)"

definition filled :: "state \<Rightarrow> int \<times> int \<Rightarrow> bool" where
  "filled s c = grid s ! nat (fst c) ! nat (snd c)"

definition ringDist :: "int \<times> int \<Rightarrow> int \<times> int \<Rightarrow> int" where
  "ringDist c o' = max \<bar>fst c - fst o'\<bar> \<bar>snd c - snd o'\<bar>"

text \<open>The eight neighbours of a cell, in the order the callback visits them.\<close>

definition neighbourCells :: "int \<Rightarrow> int \<Rightarrow> (int \<times> int) list" where
  "neighbourCells i j = map (\<lambda>(di, dj). (i + di, j + dj)) neighbourOffsets"

text \<open>
  A pending callback lies within \<open>D\<close> of the origin \<open>o'\<close> when its cell's ring distance
  plus its remaining depth is at most \<open>D\<close>.
\<close>

fun taskWithin :: "int \<times> int \<Rightarrow> int \<Rightarrow> task \<Rightarrow> bool" where
  "taskWithin o' D (SpreadStep a b e) = (ringDist (a, b) o' + e \<le> D)"
| "taskWithin o' D DelayDisconnect = True"
| "taskWithin o' D MusicPause = True"

text \<open>
  An array has the shape of the grid when it has \<open>cols\<close> columns of \<open>rows\<close> entries each.
  \<open>countDown\<close> is what the render pass does to one flash counter.
\<close>

definition gridShaped :: "'a list list \<Rightarrow> bool" where
  "gridShaped a = (length a = cols \<and> list_all (\<lambda>c. length c = rows) a)"

definition flashNonneg :: "int list list \<Rightarrow> bool" where
  "flashNonneg bf = list_all (list_all (\<lambda>v. 0 \<le> v)) bf"

definition countDown :: "int \<Rightarrow> int" where
  "countDown v = (if v > 0 then v - 1 else v)"

subsection \<open>Example inputs\<close>

text \<open>A frame of a silent moment: mid-range noise, half strength, no sound.\<close>

definition calmFrame :: frame where
  "calmFrame = \<lparr> millis = 16, speed = 0.01, strength = 0.5, noise = (\<lambda>x y. 1 / 2),
                  level = 0, rnd = (\<lambda>k. 0) \<rparr>"

text \<open>A frame with the strength slider at 0 and a noise function that is 0 everywhere.\<close>

definition flatFrame :: frame where
  "flatFrame = \<lparr> millis = 16, speed = 0.01, strength = 0, noise = (\<lambda>x y. 0),
                  level = 0, rnd = (\<lambda>k. 0) \<rparr>"

text \<open>A silent frame drawn 1001 ms after the start of the sketch.\<close>

definition lateFrame :: frame where
  "lateFrame = \<lparr> millis = 1001, speed = 0.01, strength = 0.5, noise = (\<lambda>x y. 1 / 2),
                  level = 0, rnd = (\<lambda>k. 0) \<rparr>"

text \<open>A frame with a loud moment: level 0.35, and a generator that always returns 1/2.\<close>

definition loudFrame :: frame where
  "loudFrame = \<lparr> millis = 32, speed = 0.01, strength = 0.5, noise = (\<lambda>x y. 1 / 2),
                  level = 0.35, rnd = (\<lambda>k. 1 / 2) \<rparr>"

text \<open>
  The grid after \<open>setup()\<close> with the one cell \<open>(2, 2)\<close> filled, and the music playing.
\<close>

definition onlyCell22 :: state where
  "onlyCell22 = setup_globals\<lparr>grid := (grid setup_globals)[2 := (grid setup_globals ! 2)[2 := True]],
                              playing := True\<rparr>"

text \<open>
  The grid after \<open>setup()\<close> with the two neighbouring cells \<open>(2, 2)\<close> and \<open>(2, 3)\<close>
  filled, and the music playing.
\<close>

definition twoCells :: state where
  "twoCells = setup_globals\<lparr>grid := (grid setup_globals)[2 := (grid setup_globals ! 2)[2 := True, 3 := True]],
                            playing := True\<rparr>"

section \<open>Properties\<close>

subsection \<open>The partition\<close>

lemma foldl_plus_sum_list: "foldl (+) a xs = a + sum_list (xs :: real list)"
  by (induction xs arbitrary: a) simp_all

lemma rawSizes_length: "length (rawSizes n nz tm str) = n"
  by (simp add: rawSizes_def)

lemma rawSizes_pos:
  assumes "\<forall>x y. 0 \<le> nz x y" and "0 \<le> str" and "r \<in> set (rawSizes n nz tm str)"
  shows "0 < r"
proof -
  from assms(3) obtain i where r: "r = nz (real i * 0.1) tm ^ contrast * str + 0.0001"
    by (auto simp: rawSizes_def)
  have "0 \<le> nz (real i * 0.1) tm ^ contrast * str"
    using assms(1,2) by simp
  with r show ?thesis by simp
qed

lemma sum_list_pos_real:
  assumes "xs \<noteq> []" and "\<forall>x \<in> set xs. 0 < (x :: real)"
  shows "0 < sum_list xs"
  using assms by (induction xs) (auto intro: add_pos_nonneg sum_list_nonneg less_imp_le)

lemma normalizeSizes_sum:
  assumes "sum_list raw \<noteq> 0"
  shows "sum_list (normalizeSizes raw extent) = extent"
proof -
  have "sum_list (map (\<lambda>r. r / sm * extent) raw) = sum_list raw / sm * extent" for sm
    by (induction raw) (simp_all add: add_divide_distrib distrib_right)
  with assms show ?thesis
    by (simp add: normalizeSizes_def foldl_plus_sum_list)
qed

lemma normalizeSizes_pos:
  assumes "\<forall>r \<in> set raw. 0 < r" and "0 < extent" and "x \<in> set (normalizeSizes raw extent)"
  shows "0 < x"
proof -
  from assms(3) obtain r where r: "r \<in> set raw" "x = r / sum_list raw * extent"
    by (auto simp: normalizeSizes_def foldl_plus_sum_list)
  then have "raw \<noteq> []" by auto
  then have "0 < sum_list raw" using assms(1) by (rule sum_list_pos_real)
  with r assms show ?thesis by simp
qed

subsection \<open>spreadGlitch, one callback, a whole wave\<close>

lemma spreadGlitch_cells:
  "glitchCells (spreadGlitch s now i j d) =
     glitchCells s @ (if 0 < d \<and> inGrid (i, j) \<and> filled s (i, j) then [(i, j)] else [])"
  by (auto simp: spreadGlitch_def inGrid_def filled_def)

lemma spreadGlitch_timers_eq:
  "timers (spreadGlitch s now i j d) =
     timers s @ (if 0 < d \<and> inGrid (i, j) \<and> filled s (i, j) then [(now + 40, SpreadStep i j d)] else [])"
  by (auto simp: spreadGlitch_def inGrid_def filled_def)

lemma spreadGlitch_grid: "grid (spreadGlitch s now i j d) = grid s"
  by (simp add: spreadGlitch_def)

lemma spreadGlitch_filled: "filled (spreadGlitch s now i j d) = filled s"
  by (simp add: filled_def fun_eq_iff spreadGlitch_grid)

lemma spreadGlitch_active: "glitchActive (spreadGlitch s now i j d) = glitchActive s"
  by (simp add: spreadGlitch_def)

lemma fold_spread_grid:
  "grid (fold (\<lambda>(di, dj) s'. spreadGlitch s' now (i + di) (j + dj) d) offs s) = grid s"
proof (induction offs arbitrary: s)
  case Nil
  then show ?case by simp
next
  case (Cons a offs)
  obtain di dj where a: "a = (di, dj)" by (cases a)
  show ?case by (simp add: a Cons.IH spreadGlitch_grid)
qed

lemma fold_spread_active:
  "glitchActive (fold (\<lambda>(di, dj) s'. spreadGlitch s' now (i + di) (j + dj) d) offs s) = glitchActive s"
proof (induction offs arbitrary: s)
  case Nil
  then show ?case by simp
next
  case (Cons a offs)
  obtain di dj where a: "a = (di, dj)" by (cases a)
  show ?case by (simp add: a Cons.IH spreadGlitch_active)
qed

lemma fold_spread_cells:
  "glitchCells (fold (\<lambda>(di, dj) s'. spreadGlitch s' now (i + di) (j + dj) d) offs s) =
     glitchCells s @ filter (\<lambda>c. 0 < d \<and> inGrid c \<and> filled s c) (map (\<lambda>(di, dj). (i + di, j + dj)) offs)"
proof (induction offs arbitrary: s)
  case Nil
  then show ?case by simp
next
  case (Cons a offs)
  obtain di dj where a: "a = (di, dj)" by (cases a)
  show ?case
    by (simp add: a Cons.IH spreadGlitch_cells spreadGlitch_filled)
qed

lemma fold_spread_timers:
  "timers (fold (\<lambda>(di, dj) s'. spreadGlitch s' now (i + di) (j + dj) d) offs s) =
     timers s @ map (\<lambda>c. (now + 40, SpreadStep (fst c) (snd c) d))
       (filter (\<lambda>c. 0 < d \<and> inGrid c \<and> filled s c) (map (\<lambda>(di, dj). (i + di, j + dj)) offs))"
proof (induction offs arbitrary: s)
  case Nil
  then show ?case by simp
next
  case (Cons a offs)
  obtain di dj where a: "a = (di, dj)" by (cases a)
  show ?case
    by (simp add: a Cons.IH spreadGlitch_timers_eq spreadGlitch_filled)
qed

lemma spreadNeighbours_cells:
  "glitchCells (spreadNeighbours s now i j d) =
     glitchCells s @ filter (\<lambda>c. 1 < d \<and> inGrid c \<and> filled s c) (neighbourCells i j)"
  by (simp add: spreadNeighbours_def fold_spread_cells neighbourCells_def)

lemma spreadNeighbours_timers:
  "timers (spreadNeighbours s now i j d) =
     timers s @ map (\<lambda>c. (now + 40, SpreadStep (fst c) (snd c) (d - 1)))
       (filter (\<lambda>c. 1 < d \<and> inGrid c \<and> filled s c) (neighbourCells i j))"
  by (simp add: spreadNeighbours_def fold_spread_timers neighbourCells_def)

lemma spreadNeighbours_grid: "grid (spreadNeighbours s now i j d) = grid s"
  by (simp add: spreadNeighbours_def fold_spread_grid)

lemma spreadNeighbours_active: "glitchActive (spreadNeighbours s now i j d) = glitchActive s"
  by (simp add: spreadNeighbours_def fold_spread_active)

lemma neighbourCells_dist: "c \<in> set (neighbourCells i j) \<Longrightarrow> ringDist c (i, j) = 1"
  by (auto simp: neighbourCells_def neighbourOffsets_def ringDist_def)

lemma fireTask_grid: "grid (fireTask s now tk) = grid s"
  by (cases tk) (simp_all add: spreadNeighbours_grid)

lemma fireTask_filled: "filled (fireTask s now tk) = filled s"
  by (simp add: filled_def fun_eq_iff fireTask_grid)

lemma fireTask_cells_mono: "set (glitchCells s) \<subseteq> set (glitchCells (fireTask s now tk))"
  by (cases tk) (auto simp: spreadNeighbours_cells)

lemma fireTask_cells_filled:
  "c \<in> set (glitchCells (fireTask s now tk)) \<Longrightarrow> c \<in> set (glitchCells s) \<or> (inGrid c \<and> filled s c)"
  by (cases tk) (auto simp: spreadNeighbours_cells)

lemma runTimers_step:
  assumes "popTimer (timers s) = Some ((due, tk), rest)"
  shows "runTimers s = runTimers (fireTask (s\<lparr>timers := rest\<rparr>) due tk)"
  by (subst runTimers.simps) (simp add: assms)

lemma runTimers_done:
  assumes "popTimer (timers s) = None"
  shows "runTimers s = s"
  by (subst runTimers.simps) (simp add: assms)

lemma runTimers_timers: "timers (runTimers s) = []"
proof (induction s rule: runTimers.induct)
  case (1 s)
  show ?case
  proof (cases "popTimer (timers s)")
    case None
    then show ?thesis by (simp add: runTimers_done popTimer_None)
  next
    case (Some x)
    obtain due tk rest where x: "x = ((due, tk), rest)" by (cases x) auto
    have p: "popTimer (timers s) = Some ((due, tk), rest)" using Some x by simp
    have "timers (runTimers (fireTask (s\<lparr>timers := rest\<rparr>) due tk)) = []"
      by (rule "1.IH" [OF p refl refl])
    then show ?thesis
      by (simp add: runTimers_step [OF p])
  qed
qed

lemma runTimers_grid: "grid (runTimers s) = grid s"
proof (induction s rule: runTimers.induct)
  case (1 s)
  show ?case
  proof (cases "popTimer (timers s)")
    case None
    then show ?thesis by (simp add: runTimers_done)
  next
    case (Some x)
    obtain due tk rest where x: "x = ((due, tk), rest)" by (cases x) auto
    have p: "popTimer (timers s) = Some ((due, tk), rest)" using Some x by simp
    have "grid (runTimers (fireTask (s\<lparr>timers := rest\<rparr>) due tk)) = grid (fireTask (s\<lparr>timers := rest\<rparr>) due tk)"
      by (rule "1.IH" [OF p refl refl])
    then show ?thesis
      by (simp add: runTimers_step [OF p] fireTask_grid)
  qed
qed

lemma runTimers_cells_mono: "set (glitchCells s) \<subseteq> set (glitchCells (runTimers s))"
proof (induction s rule: runTimers.induct)
  case (1 s)
  show ?case
  proof (cases "popTimer (timers s)")
    case None
    then show ?thesis by (simp add: runTimers_done)
  next
    case (Some x)
    obtain due tk rest where x: "x = ((due, tk), rest)" by (cases x) auto
    have p: "popTimer (timers s) = Some ((due, tk), rest)" using Some x by simp
    have a: "set (glitchCells (fireTask (s\<lparr>timers := rest\<rparr>) due tk))
            \<subseteq> set (glitchCells (runTimers (fireTask (s\<lparr>timers := rest\<rparr>) due tk)))"
      by (rule "1.IH" [OF p refl refl])
    have b: "set (glitchCells s) \<subseteq> set (glitchCells (fireTask (s\<lparr>timers := rest\<rparr>) due tk))"
      using fireTask_cells_mono [of "s\<lparr>timers := rest\<rparr>" due tk] by simp
    show ?thesis
      unfolding runTimers_step [OF p] using a b by (rule order_trans [rotated])
  qed
qed

lemma runTimers_cells_filled:
  "c \<in> set (glitchCells (runTimers s)) \<Longrightarrow> c \<in> set (glitchCells s) \<or> (inGrid c \<and> filled s c)"
proof (induction s rule: runTimers.induct)
  case (1 s)
  show ?case
  proof (cases "popTimer (timers s)")
    case None
    then show ?thesis using "1.prems" by (simp add: runTimers_done)
  next
    case (Some x)
    obtain due tk rest where x: "x = ((due, tk), rest)" by (cases x) auto
    have p: "popTimer (timers s) = Some ((due, tk), rest)" using Some x by simp
    let ?s0 = "s\<lparr>timers := rest\<rparr>"
    let ?s1 = "fireTask ?s0 due tk"
    have "c \<in> set (glitchCells (runTimers ?s1))"
      using "1.prems" unfolding runTimers_step [OF p] .
    then have "c \<in> set (glitchCells ?s1) \<or> (inGrid c \<and> filled ?s1 c)"
      by (rule "1.IH" [OF p refl refl])
    moreover have "filled ?s1 = filled s"
      by (simp add: fireTask_filled) (simp add: filled_def fun_eq_iff)
    moreover have "c \<in> set (glitchCells ?s1) \<Longrightarrow> c \<in> set (glitchCells s) \<or> (inGrid c \<and> filled s c)"
    proof -
      assume "c \<in> set (glitchCells ?s1)"
      then have "c \<in> set (glitchCells ?s0) \<or> (inGrid c \<and> filled ?s0 c)"
        by (rule fireTask_cells_filled)
      then show ?thesis by (simp add: filled_def)
    qed
    ultimately show ?thesis by auto
  qed
qed

subsection \<open>The partition (claims C1 and C8)\<close>

lemma beatDetect_fields:
  assumes "beatDetect s lv r = Inr s'"
  shows "\<exists>bf. s' = s\<lparr>beatFlash := bf, lastLevel := lv\<rparr>"
proof (cases "lv - lastLevel s > 0.1")
  case True
  with assms show ?thesis
    by (auto simp: beatDetect_def split: sum.splits)
next
  case False
  with assms have "s' = s\<lparr>beatFlash := beatFlash s, lastLevel := lv\<rparr>"
    by (auto simp: beatDetect_def)
  then show ?thesis ..
qed

lemma beatDetect_quiet:
  "lv - lastLevel s \<le> 0.1 \<Longrightarrow> beatDetect s lv r = Inr (s\<lparr>lastLevel := lv\<rparr>)"
  by (simp add: beatDetect_def)

lemma draw_colWidths:
  assumes "draw s f = Inr s'"
  shows "colWidths s' =
           normalizeSizes (rawSizes cols (noise f)
             (tNoise (advanceTime (expireGlitch s (millis f)) (speed f))) (strength f)) width"
proof -
  from assms obtain bf where "s' = (renderCells
          (recomputePartition (advanceTime (expireGlitch s (millis f)) (speed f))
             (noise f) (strength f)))\<lparr>beatFlash := bf, lastLevel := level f\<rparr>"
    unfolding draw_def by (blast dest: beatDetect_fields)
  then show ?thesis
    by (simp add: renderCells_def recomputePartition_def)
qed

lemma draw_rowHeights:
  assumes "draw s f = Inr s'"
  shows "rowHeights s' =
           normalizeSizes (rawSizes rows (noise f)
             (tNoise (advanceTime (expireGlitch s (millis f)) (speed f)) + 100) (strength f)) height"
proof -
  from assms obtain bf where "s' = (renderCells
          (recomputePartition (advanceTime (expireGlitch s (millis f)) (speed f))
             (noise f) (strength f)))\<lparr>beatFlash := bf, lastLevel := level f\<rparr>"
    unfolding draw_def by (blast dest: beatDetect_fields)
  then show ?thesis
    by (simp add: renderCells_def recomputePartition_def)
qed

lemma lastLevel_before_beat:
  "lastLevel (renderCells (recomputePartition (advanceTime (expireGlitch s now) sp) nz str)) = lastLevel s"
  by (simp add: renderCells_def recomputePartition_def advanceTime_def expireGlitch_def)

lemma draw_quiet:
  assumes "level f - lastLevel s \<le> 0.1"
  shows "\<exists>s'. draw s f = Inr s'"
  unfolding draw_def using assms
  by (simp add: beatDetect_quiet lastLevel_before_beat)

lemma normalizeSizes_length: "length (normalizeSizes raw extent) = length raw"
  by (simp add: normalizeSizes_def)

lemma partition_ok:
  assumes "\<forall>x y. 0 \<le> nz x y" and "0 \<le> str" and "0 < n" and "0 < extent"
  shows "length (normalizeSizes (rawSizes n nz tm str) extent) = n
       \<and> (\<forall>w \<in> set (normalizeSizes (rawSizes n nz tm str) extent). 0 < w)
       \<and> sum_list (normalizeSizes (rawSizes n nz tm str) extent) = extent"
proof -
  let ?raw = "rawSizes n nz tm str"
  have pos: "\<forall>r \<in> set ?raw. 0 < r"
    using rawSizes_pos [OF assms(1,2)] by blast
  have ne: "?raw \<noteq> []"
    using assms(3) rawSizes_length [of n nz tm str] by auto
  have "0 < sum_list ?raw"
    using ne pos by (rule sum_list_pos_real)
  then have "sum_list (normalizeSizes ?raw extent) = extent"
    by (intro normalizeSizes_sum) simp
  moreover have "\<forall>w \<in> set (normalizeSizes ?raw extent). 0 < w"
    using normalizeSizes_pos [OF pos assms(4)] by blast
  ultimately show ?thesis
    by (simp add: normalizeSizes_length rawSizes_length)
qed

text \<open>
  Claim C1. Whatever the noise function returns, as long as every sample lies between 0
  and 1, and for every strength that is not negative, a call of \<open>draw\<close> leaves
  \<open>cols\<close> column widths that are all positive and add up to the canvas width, and
  \<open>rows\<close> row heights that are all positive and add up to the canvas height. Numbers
  are exact reals here, so the sums are equal, not only close.
\<close>

theorem partition_normalized:
  assumes "\<forall>x y. 0 \<le> noise f x y \<and> noise f x y \<le> 1"
    and "0 \<le> strength f"
    and "draw s f = Inr s'"
  shows "length (colWidths s') = cols \<and> (\<forall>w \<in> set (colWidths s'). 0 < w)
       \<and> sum_list (colWidths s') = width
       \<and> length (rowHeights s') = rows \<and> (\<forall>h \<in> set (rowHeights s'). 0 < h)
       \<and> sum_list (rowHeights s') = height"
proof -
  have nz: "\<forall>x y. 0 \<le> noise f x y" using assms(1) by simp
  have c: "0 < cols" "0 < width" and r: "0 < rows" "0 < height"
    by (simp_all add: cols_def rows_def width_def height_def)
  show ?thesis
    unfolding draw_colWidths [OF assms(3)] draw_rowHeights [OF assms(3)]
    using partition_ok [OF nz assms(2) c] partition_ok [OF nz assms(2) r]
    by simp
qed

theorem partition_normalized_witness:
  "\<exists>s'. draw setup_globals calmFrame = Inr s'
      \<and> sum_list (colWidths s') = width \<and> sum_list (rowHeights s') = height
      \<and> length (colWidths s') = cols \<and> list_all (\<lambda>w. 0 < w) (colWidths s')"
proof -
  have "level calmFrame - lastLevel setup_globals \<le> 0.1"
    by (simp add: calmFrame_def setup_globals_def)
  then obtain s' where d: "draw setup_globals calmFrame = Inr s'"
    using draw_quiet by blast
  have "\<forall>x y. 0 \<le> noise calmFrame x y \<and> noise calmFrame x y \<le> 1"
    by (simp add: calmFrame_def)
  moreover have "0 \<le> strength calmFrame"
    by (simp add: calmFrame_def)
  ultimately show ?thesis
    using partition_normalized [of calmFrame setup_globals s'] d
    by (auto simp: list_all_iff)
qed

lemma rawSizes_zero_strength: "rawSizes n nz tm 0 = replicate n 0.0001"
  by (simp add: rawSizes_def map_replicate_const)

lemma normalizeSizes_replicate:
  assumes "0 < n" and "e \<noteq> 0"
  shows "normalizeSizes (replicate n e) extent = replicate n (extent / real n)"
  using assms by (simp add: normalizeSizes_def foldl_plus_sum_list sum_list_replicate)

text \<open>
  Claim C8. With the strength slider at 0, every raw weight is the constant 0.0001
  whatever the noise function returns; their sum is 0.0015 for the columns and 0.001
  for the rows, not 0, and \<open>draw\<close> leaves the uniform partition: every column
  \<open>width / cols\<close> wide and every row \<open>height / rows\<close> high.
\<close>

theorem zero_strength_uniform:
  assumes "strength f = 0" and "draw s f = Inr s'"
  shows "colWidths s' = replicate cols (width / real cols)
       \<and> rowHeights s' = replicate rows (height / real rows)
       \<and> rawSizes cols (noise f) tm (strength f) = replicate cols 0.0001
       \<and> rawSizes rows (noise f) tm (strength f) = replicate rows 0.0001
       \<and> foldl (+) 0 (rawSizes cols (noise f) tm (strength f)) = 0.0015
       \<and> foldl (+) 0 (rawSizes rows (noise f) tm (strength f)) = 0.001"
proof -
  have c: "0 < cols" and r: "0 < rows"
    by (simp_all add: cols_def rows_def)
  have e: "(0.0001 :: real) \<noteq> 0" by simp
  have "colWidths s' = replicate cols (width / real cols)"
    unfolding draw_colWidths [OF assms(2)] assms(1) rawSizes_zero_strength
    by (rule normalizeSizes_replicate [OF c e])
  moreover have "rowHeights s' = replicate rows (height / real rows)"
    unfolding draw_rowHeights [OF assms(2)] assms(1) rawSizes_zero_strength
    by (rule normalizeSizes_replicate [OF r e])
  moreover have "foldl (+) 0 (replicate cols (0.0001 :: real)) = 0.0015"
    by (simp add: foldl_plus_sum_list sum_list_replicate cols_def)
  moreover have "foldl (+) 0 (replicate rows (0.0001 :: real)) = 0.001"
    by (simp add: foldl_plus_sum_list sum_list_replicate rows_def)
  ultimately show ?thesis
    by (simp add: assms(1) rawSizes_zero_strength)
qed

theorem zero_strength_uniform_witness:
  "\<exists>s'. draw setup_globals flatFrame = Inr s'
      \<and> colWidths s' = replicate 15 80 \<and> rowHeights s' = replicate 10 80"
proof -
  have "level flatFrame - lastLevel setup_globals \<le> 0.1"
    by (simp add: flatFrame_def setup_globals_def)
  then obtain s' where d: "draw setup_globals flatFrame = Inr s'"
    using draw_quiet by blast
  have "strength flatFrame = 0"
    by (simp add: flatFrame_def)
  then show ?thesis
    using zero_strength_uniform [of flatFrame setup_globals s'] d
    by (auto simp: cols_def rows_def width_def height_def)
qed

subsection \<open>The radius of a wave\<close>

lemma popTimer_set:
  "popTimer ts = Some (x, rest) \<Longrightarrow> x \<in> set ts \<and> set rest \<subseteq> set ts"
  by (induction ts arbitrary: x rest)
     (auto simp: popTimer_None split: option.splits if_splits prod.splits)

lemma popTimer_single: "popTimer [x] = Some (x, [])"
  by simp

lemma spreadGlitch_depth0: "spreadGlitch s now a b 0 = s"
  by (simp add: spreadGlitch_def)

lemma spreadNeighbours_depth1: "spreadNeighbours s now i j 1 = s"
  by (simp add: spreadNeighbours_def neighbourOffsets_def spreadGlitch_depth0)

lemma neighbourCells_step:
  assumes "c \<in> set (neighbourCells a b)"
  shows "ringDist c o' \<le> ringDist (a, b) o' + 1"
proof -
  from assms obtain di dj where c: "c = (a + di, b + dj)" and d: "\<bar>di\<bar> \<le> 1" "\<bar>dj\<bar> \<le> 1"
    by (auto simp: neighbourCells_def neighbourOffsets_def)
  show ?thesis
    using d by (simp add: c ringDist_def) linarith
qed

lemma fireTask_radius:
  assumes "taskWithin o' D tk"
    and "\<forall>x \<in> set (timers s). taskWithin o' D (snd x)"
  shows "(\<forall>x \<in> set (timers (fireTask s now tk)). taskWithin o' D (snd x))
       \<and> (\<forall>c \<in> set (glitchCells (fireTask s now tk)). c \<in> set (glitchCells s) \<or> ringDist c o' \<le> D - 1)"
proof (cases tk)
  case (SpreadStep a b e)
  have w: "ringDist (a, b) o' + e \<le> D"
    using assms(1) SpreadStep by simp
  have n: "ringDist c o' \<le> D - e + 1" if "c \<in> set (neighbourCells a b)" for c
    using neighbourCells_step [OF that, of o'] w by linarith
  have "taskWithin o' D (SpreadStep (fst c) (snd c) (e - 1))" if "c \<in> set (neighbourCells a b)" for c
    using n [OF that] by simp
  moreover have "ringDist c o' \<le> D - 1" if "c \<in> set (neighbourCells a b)" "1 < e" for c
    using n [OF that(1)] that(2) by linarith
  ultimately show ?thesis
    using assms(2) by (auto simp: SpreadStep spreadNeighbours_timers spreadNeighbours_cells)
qed (use assms(2) in simp_all)

lemma runTimers_radius:
  "\<forall>x \<in> set (timers s). taskWithin o' D (snd x) \<Longrightarrow>
   c \<in> set (glitchCells (runTimers s)) \<Longrightarrow> c \<in> set (glitchCells s) \<or> ringDist c o' \<le> D - 1"
proof (induction s rule: runTimers.induct)
  case (1 s)
  show ?case
  proof (cases "popTimer (timers s)")
    case None
    then show ?thesis using "1.prems"(2) by (simp add: runTimers_done)
  next
    case (Some x)
    obtain due tk rest where x: "x = ((due, tk), rest)" by (cases x) auto
    have p: "popTimer (timers s) = Some ((due, tk), rest)" using Some x by simp
    let ?s0 = "s\<lparr>timers := rest\<rparr>"
    let ?s1 = "fireTask ?s0 due tk"
    have tk: "taskWithin o' D tk" and rest: "\<forall>x \<in> set (timers ?s0). taskWithin o' D (snd x)"
      using popTimer_set [OF p] "1.prems"(1) by auto
    have f: "(\<forall>x \<in> set (timers ?s1). taskWithin o' D (snd x))
       \<and> (\<forall>c \<in> set (glitchCells ?s1). c \<in> set (glitchCells ?s0) \<or> ringDist c o' \<le> D - 1)"
      by (rule fireTask_radius [OF tk rest])
    have "c \<in> set (glitchCells (runTimers ?s1))"
      using "1.prems"(2) unfolding runTimers_step [OF p] .
    with f have "c \<in> set (glitchCells ?s1) \<or> ringDist c o' \<le> D - 1"
      using "1.IH" [OF p refl refl] by blast
    with f show ?thesis by auto
  qed
qed

lemma ringDist_self: "ringDist c c = 0"
  by (simp add: ringDist_def)

lemma wave_radius:
  assumes "timers s = []" and "c \<in> set (glitchCells (runTimers (spreadGlitch s now i j depth)))"
  shows "c \<in> set (glitchCells s) \<or> ringDist c (i, j) \<le> depth - 1"
proof -
  let ?s1 = "spreadGlitch s now i j depth"
  have "\<forall>x \<in> set (timers ?s1). taskWithin (i, j) depth (snd x)"
    using assms(1) by (simp add: spreadGlitch_timers_eq ringDist_self)
  from runTimers_radius [OF this assms(2)]
  have "c \<in> set (glitchCells ?s1) \<or> ringDist c (i, j) \<le> depth - 1" .
  then show ?thesis
    by (auto simp: spreadGlitch_cells ringDist_self split: if_splits)
qed

lemma wave_depth1:
  assumes "timers s = []"
  shows "glitchCells (runTimers (spreadGlitch s now i j 1)) =
           glitchCells s @ (if inGrid (i, j) \<and> filled s (i, j) then [(i, j)] else [])"
proof (cases "inGrid (i, j) \<and> filled s (i, j)")
  case True
  let ?s1 = "spreadGlitch s now i j 1"
  have t: "timers ?s1 = [(now + 40, SpreadStep i j 1)]"
    using True assms by (simp add: spreadGlitch_timers_eq)
  have p: "popTimer (timers ?s1) = Some ((now + 40, SpreadStep i j 1), [])"
    by (simp add: t)
  have "runTimers ?s1 = runTimers (?s1\<lparr>timers := []\<rparr>)"
    by (simp add: runTimers_step [OF p] spreadNeighbours_depth1)
  also have "\<dots> = ?s1\<lparr>timers := []\<rparr>"
    by (rule runTimers_done) simp
  finally show ?thesis
    using True by (simp add: spreadGlitch_cells)
next
  case False
  let ?s1 = "spreadGlitch s now i j 1"
  have "timers ?s1 = []"
    using False assms by (auto simp: spreadGlitch_timers_eq)
  then have "runTimers ?s1 = ?s1"
    by (intro runTimers_done) simp
  then show ?thesis
    using False by (auto simp: spreadGlitch_cells)
qed

subsection \<open>Gating and depth of the glitch wave (claims C2 and C5)\<close>

lemma onlyCell22_filled: "inGrid c \<Longrightarrow> filled onlyCell22 c \<longleftrightarrow> c = (2, 2)"
proof -
  assume g: "inGrid c"
  obtain a b where c: "c = (a, b)" by (cases c)
  from g c have "nat a < cols" "nat b < rows" "0 \<le> a" "0 \<le> b"
    by (auto simp: inGrid_def)
  then show ?thesis
    by (auto simp: c onlyCell22_def setup_globals_def filled_def nth_list_update cols_def rows_def
          split: if_splits)
qed

lemma onlyCell22_fields: "glitchCells onlyCell22 = []" "timers onlyCell22 = []"
  by (simp_all add: onlyCell22_def setup_globals_def)

lemma timerFires_cells_filled:
  assumes "timerFires s now = Some s'" and "c \<in> set (glitchCells s')"
  shows "c \<in> set (glitchCells s) \<or> (inGrid c \<and> filled s c)"
proof -
  from assms(1) obtain due tk rest where
    s': "s' = fireTask (s\<lparr>timers := rest\<rparr>) now tk"
    by (auto simp: timerFires_def split: option.splits prod.splits if_splits)
  from assms(2) have "c \<in> set (glitchCells (s\<lparr>timers := rest\<rparr>)) \<or> (inGrid c \<and> filled (s\<lparr>timers := rest\<rparr>) c)"
    unfolding s' by (rule fireTask_cells_filled)
  then show ?thesis by (simp add: filled_def)
qed

text \<open>
  Claim C2. A call of \<open>spreadGlitch\<close> adds at most its own cell, and only when that cell
  is inside the grid and filled. The same holds for everything the call sets off: after
  one callback, run at any time, and after the whole wave, every cell of \<open>glitchCells\<close>
  that was not there before is inside the grid and filled. On a grid where \<open>(2, 2)\<close> is
  the only filled cell, \<open>spreadGlitch(2, 2, 3)\<close> on an empty list puts \<open>(2, 2)\<close> there at
  once, and when the wave is over \<open>(2, 2)\<close> is still the only cell of the list.
\<close>

theorem spreadGlitch_gating:
  "(\<forall>c \<in> set (glitchCells (spreadGlitch s now i j depth)).
       c \<in> set (glitchCells s) \<or> (c = (i, j) \<and> inGrid c \<and> filled s c))
   \<and> (\<forall>s'. timerFires s now = Some s' \<longrightarrow>
         (\<forall>c \<in> set (glitchCells s'). c \<in> set (glitchCells s) \<or> (inGrid c \<and> filled s c)))
   \<and> (\<forall>c \<in> set (glitchCells (runTimers (spreadGlitch s now i j depth))).
         c \<in> set (glitchCells s) \<or> (inGrid c \<and> filled s c))
   \<and> ((\<forall>c. inGrid c \<longrightarrow> (filled s c \<longleftrightarrow> c = (2, 2))) \<and> glitchCells s = [] \<longrightarrow>
         glitchCells (spreadGlitch s now 2 2 3) = [(2, 2)]
         \<and> set (glitchCells (runTimers (spreadGlitch s now 2 2 3))) = {(2, 2)})"
proof (intro conjI allI impI ballI)
  fix c assume "c \<in> set (glitchCells (spreadGlitch s now i j depth))"
  then show "c \<in> set (glitchCells s) \<or> (c = (i, j) \<and> inGrid c \<and> filled s c)"
    by (auto simp: spreadGlitch_cells split: if_splits)
next
  fix s' c assume "timerFires s now = Some s'" "c \<in> set (glitchCells s')"
  then show "c \<in> set (glitchCells s) \<or> (inGrid c \<and> filled s c)"
    by (rule timerFires_cells_filled)
next
  fix c assume "c \<in> set (glitchCells (runTimers (spreadGlitch s now i j depth)))"
  then have "c \<in> set (glitchCells (spreadGlitch s now i j depth))
      \<or> (inGrid c \<and> filled (spreadGlitch s now i j depth) c)"
    by (rule runTimers_cells_filled)
  then show "c \<in> set (glitchCells s) \<or> (inGrid c \<and> filled s c)"
    by (auto simp: spreadGlitch_cells spreadGlitch_filled split: if_splits)
next
  assume a: "(\<forall>c. inGrid c \<longrightarrow> (filled s c \<longleftrightarrow> c = (2, 2))) \<and> glitchCells s = []"
  have g: "inGrid (2, 2)" by (simp add: inGrid_def cols_def rows_def)
  with a have f: "filled s (2, 2)" by blast
  show first: "glitchCells (spreadGlitch s now 2 2 3) = [(2, 2)]"
    using a g f by (simp add: spreadGlitch_cells)
  show "set (glitchCells (runTimers (spreadGlitch s now 2 2 3))) = {(2, 2)}"
  proof
    show "set (glitchCells (runTimers (spreadGlitch s now 2 2 3))) \<subseteq> {(2, 2)}"
    proof
      fix c assume "c \<in> set (glitchCells (runTimers (spreadGlitch s now 2 2 3)))"
      then have "c \<in> set (glitchCells (spreadGlitch s now 2 2 3))
          \<or> (inGrid c \<and> filled (spreadGlitch s now 2 2 3) c)"
        by (rule runTimers_cells_filled)
      moreover have "c = (2, 2)" if "inGrid c" "filled s c"
        using a that by blast
      ultimately show "c \<in> {(2, 2)}"
        by (auto simp: first spreadGlitch_filled)
    qed
    show "{(2, 2)} \<subseteq> set (glitchCells (runTimers (spreadGlitch s now 2 2 3)))"
      using runTimers_cells_mono [of "spreadGlitch s now 2 2 3"] by (simp add: first)
  qed
qed

theorem spreadGlitch_gating_witness:
  "glitchCells (spreadGlitch onlyCell22 0 2 2 3) = [(2, 2)]
   \<and> set (glitchCells (runTimers (spreadGlitch onlyCell22 0 2 2 3))) = {(2, 2)}"
proof -
  have "(\<forall>c. inGrid c \<longrightarrow> (filled onlyCell22 c \<longleftrightarrow> c = (2, 2))) \<and> glitchCells onlyCell22 = []"
    using onlyCell22_filled by (simp add: onlyCell22_fields)
  then show ?thesis
    using spreadGlitch_gating [of onlyCell22 0 2 2 3] by blast
qed

text \<open>
  Claim C5. The callback of a call of depth 1 hands depth 0 to all eight neighbours, so
  it changes nothing: with no other callback pending, the wave of \<open>spreadGlitch(i, j, 1)\<close>
  adds the cell \<open>(i, j)\<close> itself when it is inside the grid and filled, and nothing else.
  Every wave ends: running the queue leaves no callback pending. And with no other
  callback pending, a wave of depth \<open>depth\<close> adds no cell farther than \<open>depth - 1\<close> rings
  from its origin.
\<close>

theorem spread_depth_bound:
  "fireTask s now (SpreadStep i j 1) = s
   \<and> (timers s = [] \<longrightarrow>
        glitchCells (runTimers (spreadGlitch s now i j 1)) =
          glitchCells s @ (if inGrid (i, j) \<and> filled s (i, j) then [(i, j)] else []))
   \<and> timers (runTimers (spreadGlitch s now i j depth)) = []
   \<and> (timers s = [] \<longrightarrow>
        (\<forall>c \<in> set (glitchCells (runTimers (spreadGlitch s now i j depth))).
           c \<in> set (glitchCells s) \<or> ringDist c (i, j) \<le> depth - 1))"
proof (intro conjI impI ballI)
  show "fireTask s now (SpreadStep i j 1) = s"
    by (simp add: spreadNeighbours_depth1)
  show "timers (runTimers (spreadGlitch s now i j depth)) = []"
    by (rule runTimers_timers)
next
  assume "timers s = []"
  then show "glitchCells (runTimers (spreadGlitch s now i j 1)) =
          glitchCells s @ (if inGrid (i, j) \<and> filled s (i, j) then [(i, j)] else [])"
    by (rule wave_depth1)
next
  fix c assume "timers s = []" "c \<in> set (glitchCells (runTimers (spreadGlitch s now i j depth)))"
  then show "c \<in> set (glitchCells s) \<or> ringDist c (i, j) \<le> depth - 1"
    by (rule wave_radius)
qed

theorem spread_depth_bound_witness:
  "timers onlyCell22 = []
   \<and> glitchCells (runTimers (spreadGlitch onlyCell22 0 2 2 1)) = [(2, 2)]
   \<and> timers (runTimers (spreadGlitch onlyCell22 0 2 2 1)) = []"
proof -
  have "inGrid (2, 2)" by (simp add: inGrid_def cols_def rows_def)
  then have "inGrid (2, 2) \<and> filled onlyCell22 (2, 2)"
    using onlyCell22_filled [of "(2, 2)"] by simp
  then show ?thesis
    using spread_depth_bound [of onlyCell22 0 2 2 1]
    by (simp add: onlyCell22_fields)
qed

subsection \<open>Frames and clicks\<close>

lemma draw_fields:
  assumes "draw s f = Inr s'"
  shows "grid s' = grid s" and "timers s' = timers s" and "playing s' = playing s"
    and "glitchStart s' = glitchStart s"
    and "glitchActive s' = (glitchActive s \<and> \<not> millis f > glitchStart s + glitchDuration)"
    and "glitchCells s' = (if glitchActive s \<and> millis f > glitchStart s + glitchDuration then []
                           else glitchCells s)"
    and "lastLevel s' = level f"
proof -
  from assms obtain bf where s': "s' = (renderCells
          (recomputePartition (advanceTime (expireGlitch s (millis f)) (speed f))
             (noise f) (strength f)))\<lparr>beatFlash := bf, lastLevel := level f\<rparr>"
    unfolding draw_def by (blast dest: beatDetect_fields)
  show "grid s' = grid s" and "timers s' = timers s" and "playing s' = playing s"
    and "glitchStart s' = glitchStart s"
    and "glitchActive s' = (glitchActive s \<and> \<not> millis f > glitchStart s + glitchDuration)"
    and "glitchCells s' = (if glitchActive s \<and> millis f > glitchStart s + glitchDuration then []
                           else glitchCells s)"
    and "lastLevel s' = level f"
    by (auto simp: s' renderCells_def recomputePartition_def advanceTime_def expireGlitch_def)
qed

lemma findCell_range:
  "findCell m acc i ws = -1
   \<or> (i \<le> findCell m acc i ws \<and> findCell m acc i ws < i + int (length ws))"
proof (induction ws arbitrary: acc i)
  case Nil
  then show ?case by simp
next
  case (Cons w ws)
  show ?case
    using Cons.IH [of "acc + w" "i + 1"] by auto
qed

lemma findCell_inGrid:
  assumes "ci = findCell mx 0 0 (take cols (colWidths s))"
    and "rj = findCell my 0 0 (take rows (rowHeights s))"
    and "0 \<le> ci" and "0 \<le> rj"
  shows "inGrid (ci, rj)"
proof -
  have "ci = -1 \<or> (0 \<le> ci \<and> ci < 0 + int (length (take cols (colWidths s))))"
    unfolding assms(1) by (rule findCell_range)
  moreover have "rj = -1 \<or> (0 \<le> rj \<and> rj < 0 + int (length (take rows (rowHeights s))))"
    unfolding assms(2) by (rule findCell_range)
  ultimately show ?thesis
    using assms(3,4) by (auto simp: inGrid_def)
qed

lemma mousePressed_playing:
  assumes "playing s"
    and "ci = findCell mx 0 0 (take cols (colWidths s))"
    and "rj = findCell my 0 0 (take rows (rowHeights s))"
    and "0 \<le> ci" and "0 \<le> rj"
  shows "mousePressed s now mx my =
     s\<lparr>glitchCells := (if filled s (ci, rj) then [(ci, rj)] else []),
       glitchActive := True, glitchStart := now,
       glitchOverlayActive := True, glitchOverlayStart := now,
       timers := timers s @ (if filled s (ci, rj) then [(now + 40, SpreadStep ci rj 3)] else [])
                   @ [(now + 300, DelayDisconnect)]\<rparr>"
proof -
  have g: "inGrid (ci, rj)"
    by (rule findCell_inGrid [OF assms(2-5)])
  then have b: "\<not> (ci < 0 \<or> int cols \<le> ci \<or> rj < 0 \<or> int rows \<le> rj)"
    by (auto simp: inGrid_def)
  show ?thesis
    using assms(1,4,5) b
    by (simp add: mousePressed_def Let_def assms(2,3) [symmetric] spreadGlitch_def filled_def)
qed

lemma findCell_200: "findCell 200 0 0 (replicate 15 80) = 2"
  by (simp add: eval_nat_numeral)

lemma findCell_280: "findCell 280 0 0 (replicate 10 80) = 3"
  by (simp add: eval_nat_numeral)

lemma findCell_200_rows: "findCell 200 0 0 (replicate 10 80) = 2"
  by (simp add: eval_nat_numeral)

lemma twoCells_fields:
  "playing twoCells" "timers twoCells = []" "glitchCells twoCells = []"
  "\<not> glitchActive twoCells"
  "take cols (colWidths twoCells) = replicate 15 80"
  "take rows (rowHeights twoCells) = replicate 10 80"
  by (simp_all add: twoCells_def setup_globals_def cols_def rows_def width_def height_def)

lemma twoCells_filled: "inGrid c \<Longrightarrow> filled twoCells c \<longleftrightarrow> c = (2, 2) \<or> c = (2, 3)"
proof -
  assume g: "inGrid c"
  obtain a b where c: "c = (a, b)" by (cases c)
  from g c have "nat a < cols" "nat b < rows" "0 \<le> a" "0 \<le> b"
    by (auto simp: inGrid_def)
  then show ?thesis
    by (auto simp: c twoCells_def setup_globals_def filled_def nth_list_update cols_def rows_def
          split: if_splits)
qed

lemma twoCells_click:
  "mousePressed twoCells 0 200 200 =
     twoCells\<lparr>glitchCells := [(2, 2)], glitchActive := True, glitchStart := 0,
       glitchOverlayActive := True, glitchOverlayStart := 0,
       timers := [(40, SpreadStep 2 2 3), (300, DelayDisconnect)]\<rparr>"
proof -
  have f: "filled twoCells (2, 2)"
    using twoCells_filled [of "(2, 2)"] by (simp add: inGrid_def cols_def rows_def)
  have "mousePressed twoCells 0 200 200 =
     twoCells\<lparr>glitchCells := (if filled twoCells (2, 2) then [(2, 2)] else []),
       glitchActive := True, glitchStart := 0,
       glitchOverlayActive := True, glitchOverlayStart := 0,
       timers := timers twoCells @ (if filled twoCells (2, 2) then [(0 + 40, SpreadStep 2 2 3)] else [])
                   @ [(0 + 300, DelayDisconnect)]\<rparr>"
    by (rule mousePressed_playing)
       (simp_all add: twoCells_fields findCell_200 findCell_200_rows)
  then show ?thesis
    by (simp add: f twoCells_fields)
qed

subsection \<open>Late callbacks and session restart (claims C6 and C9)\<close>

lemma popTimer_two: "popTimer [(40, SpreadStep 2 2 3), (300, DelayDisconnect)]
    = Some ((40, SpreadStep 2 2 3), [(300, DelayDisconnect)])"
  by simp

lemma neighbours_22_twoCells:
  "filter (\<lambda>c. inGrid c \<and> filled twoCells c) (neighbourCells 2 2) = [(2, 3)]"
proof -
  have "filter (\<lambda>c. inGrid c \<and> filled twoCells c) (neighbourCells 2 2)
      = filter (\<lambda>c. inGrid c \<and> (c = (2, 2) \<or> c = (2, 3))) (neighbourCells 2 2)"
    by (rule filter_cong) (auto simp: twoCells_filled)
  also have "\<dots> = [(2, 3)]"
    by (simp add: neighbourCells_def neighbourOffsets_def inGrid_def cols_def rows_def)
  finally show ?thesis .
qed

text \<open>
  Claim C6. Let a glitch session be active and let a callback of \<open>spreadGlitch\<close> with
  depth above 1 be the next one pending. A frame drawn after the session's duration
  ends the session: \<open>glitchActive\<close> is false and \<open>glitchCells\<close> is empty, but the queue
  of callbacks is untouched. When the callback then runs, it puts every neighbour of
  its cell that is inside the grid and filled into \<open>glitchCells\<close>, although no session
  is active.
\<close>

theorem late_spread_not_cancelled:
  assumes "glitchActive s" and "millis f > glitchStart s + glitchDuration"
    and "draw s f = Inr s1"
    and "popTimer (timers s) = Some ((due, SpreadStep i j depth), rest)"
    and "due \<le> now" and "1 < depth"
  shows "\<not> glitchActive s1 \<and> glitchCells s1 = [] \<and> timers s1 = timers s
       \<and> (\<exists>s2. timerFires s1 now = Some s2 \<and> \<not> glitchActive s2
             \<and> glitchCells s2 = filter (\<lambda>c. inGrid c \<and> filled s c) (neighbourCells i j))"
proof -
  note d = draw_fields [OF assms(3)]
  have a: "\<not> glitchActive s1" and c: "glitchCells s1 = []" and t: "timers s1 = timers s"
    using assms(1,2) by (simp_all add: d)
  have f: "filled (s1\<lparr>timers := rest\<rparr>) = filled s"
    by (simp add: filled_def fun_eq_iff d(1))
  let ?s2 = "fireTask (s1\<lparr>timers := rest\<rparr>) now (SpreadStep i j depth)"
  have "timerFires s1 now = Some ?s2"
    using assms(4,5) by (simp add: timerFires_def t)
  moreover have "\<not> glitchActive ?s2"
    using a by (simp add: spreadNeighbours_active)
  moreover have "glitchCells ?s2 = filter (\<lambda>c. inGrid c \<and> filled s c) (neighbourCells i j)"
    using assms(6) by (simp add: spreadNeighbours_cells c f)
  ultimately show ?thesis
    using a c t by blast
qed

theorem late_spread_not_cancelled_witness:
  "\<exists>s1 s2. draw (mousePressed twoCells 0 200 200) lateFrame = Inr s1
      \<and> \<not> glitchActive s1 \<and> glitchCells s1 = []
      \<and> timerFires s1 1002 = Some s2 \<and> \<not> glitchActive s2 \<and> glitchCells s2 = [(2, 3)]"
proof -
  let ?s = "mousePressed twoCells 0 200 200"
  have "lastLevel twoCells = 0"
    by (simp add: twoCells_def setup_globals_def)
  then have "level lateFrame - lastLevel ?s \<le> 0.1"
    by (simp add: twoCells_click lateFrame_def)
  then obtain s1 where d: "draw ?s lateFrame = Inr s1"
    using draw_quiet by blast
  have 1: "glitchActive ?s" and 2: "millis lateFrame > glitchStart ?s + glitchDuration"
    and 4: "popTimer (timers ?s) = Some ((40, SpreadStep 2 2 3), [(300, DelayDisconnect)])"
    by (simp_all add: twoCells_click lateFrame_def glitchDuration_def)
  have f: "filled ?s = filled twoCells"
    by (simp add: twoCells_click filled_def fun_eq_iff)
  show ?thesis
    using late_spread_not_cancelled [OF 1 2 d 4, of 1002] d
    by (auto simp: f neighbours_22_twoCells)
qed

text \<open>
  Claim C9. A click that falls into a cell while the music plays, whether a glitch
  session is active or not, leaves the session and the overlay active, both start times
  equal to the time of the click, and \<open>glitchCells\<close> holding nothing of the previous
  session: it is empty when the clicked cell is not filled and holds the clicked cell
  alone when it is, which is what \<open>spreadGlitch\<close> of depth 3 on the emptied list adds.
\<close>

theorem click_restarts_session:
  assumes "playing s"
    and "ci = findCell mouseX 0 0 (take cols (colWidths s))"
    and "rj = findCell mouseY 0 0 (take rows (rowHeights s))"
    and "0 \<le> ci" and "0 \<le> rj"
  shows "glitchActive (mousePressed s now mouseX mouseY)
       \<and> glitchOverlayActive (mousePressed s now mouseX mouseY)
       \<and> glitchStart (mousePressed s now mouseX mouseY) = now
       \<and> glitchOverlayStart (mousePressed s now mouseX mouseY) = now
       \<and> glitchCells (mousePressed s now mouseX mouseY) =
            glitchCells (spreadGlitch (s\<lparr>glitchCells := []\<rparr>) now ci rj 3)
       \<and> glitchCells (mousePressed s now mouseX mouseY) =
            (if filled s (ci, rj) then [(ci, rj)] else [])
       \<and> timers (mousePressed s now mouseX mouseY) =
            timers s @ (if filled s (ci, rj) then [(now + 40, SpreadStep ci rj 3)] else [])
              @ [(now + 300, DelayDisconnect)]"
proof -
  have g: "inGrid (ci, rj)"
    by (rule findCell_inGrid [OF assms(2-5)])
  have f: "filled (s\<lparr>glitchCells := []\<rparr>) = filled s"
    by (simp add: filled_def fun_eq_iff)
  show ?thesis
    unfolding mousePressed_playing [OF assms]
    using g by (simp add: spreadGlitch_cells f)
qed

theorem click_restarts_session_witness:
  "glitchActive (mousePressed twoCells 0 200 200)
   \<and> glitchCells (mousePressed twoCells 0 200 200) = [(2, 2)]
   \<and> glitchStart (mousePressed (mousePressed twoCells 0 200 200) 500 200 280) = 500
   \<and> glitchOverlayStart (mousePressed (mousePressed twoCells 0 200 200) 500 200 280) = 500
   \<and> glitchCells (mousePressed (mousePressed twoCells 0 200 200) 500 200 280) = [(2, 3)]"
proof -
  let ?s = "mousePressed twoCells 0 200 200"
  have 1: "playing ?s"
    and 2: "2 = findCell 200 0 0 (take cols (colWidths ?s))"
    and 3: "3 = findCell 280 0 0 (take rows (rowHeights ?s))"
    by (simp_all add: twoCells_click twoCells_fields findCell_200 findCell_280)
  have 4: "(0::int) \<le> 2" "(0::int) \<le> 3"
    by simp_all
  have f: "filled ?s (2, 3)"
    using twoCells_filled [of "(2, 3)"]
    by (simp add: twoCells_click filled_def inGrid_def cols_def rows_def)
  have a: "glitchActive ?s \<and> glitchCells ?s = [(2, 2)]"
    by (simp add: twoCells_click)
  have "glitchStart (mousePressed ?s 500 200 280) = 500
      \<and> glitchOverlayStart (mousePressed ?s 500 200 280) = 500
      \<and> glitchCells (mousePressed ?s 500 200 280) = [(2, 3)]"
    using click_restarts_session [OF 1 2 3 4, of 500] unfolding if_P [OF f] by blast
  with a show ?thesis by blast
qed

subsection \<open>The render pass and the beat pass\<close>

lemma gridShaped_nth: "gridShaped a \<Longrightarrow> i < cols \<Longrightarrow> length (a ! i) = rows"
  by (simp add: gridShaped_def list_all_length)

lemma randomIndex_range:
  assumes "0 \<le> u" and "u < 1" and "0 < n"
  shows "0 \<le> randomIndex u n \<and> randomIndex u n < int n"
proof -
  have "0 \<le> u * real n" using assms by simp
  moreover have "u * real n < real n" using assms by simp
  ultimately show ?thesis
    by (simp add: randomIndex_def floor_less_iff)
qed

lemma writeCell_shaped:
  assumes "gridShaped a" and "0 \<le> i" and "i < int cols" and "0 \<le> j" and "j < int rows"
  shows "writeCell a i j v = Inr (a[nat i := (a ! nat i)[nat j := v]])"
    and "gridShaped (a[nat i := (a ! nat i)[nat j := v]])"
proof -
  have i: "nat i < cols" using assms(2,3) by simp
  have l: "length a = cols" using assms(1) by (simp add: gridShaped_def)
  have r: "length (a ! nat i) = rows" by (rule gridShaped_nth [OF assms(1) i])
  show "writeCell a i j v = Inr (a[nat i := (a ! nat i)[nat j := v]])"
    using assms(2-5) l r by (simp add: writeCell_def)
  show "gridShaped (a[nat i := (a ! nat i)[nat j := v]])"
    using assms(1) i r
    by (auto simp: gridShaped_def list_all_length nth_list_update)
qed

lemma flashLoop_shaped:
  assumes "\<forall>n. 0 \<le> r n \<and> r n < 1"
  shows "gridShaped bf \<Longrightarrow> \<exists>bf'. flashLoop r k m bf = Inr bf' \<and> gridShaped bf'"
proof (induction m arbitrary: k bf)
  case 0
  then show ?case by simp
next
  case (Suc m)
  let ?i = "randomIndex (r (2 * k)) cols" and ?j = "randomIndex (r (Suc (2 * k))) rows"
  have c: "0 < cols" and rw: "0 < rows"
    by (simp_all add: cols_def rows_def)
  have i: "0 \<le> ?i \<and> ?i < int cols"
    using assms by (intro randomIndex_range c) simp_all
  have j: "0 \<le> ?j \<and> ?j < int rows"
    using assms by (intro randomIndex_range rw) simp_all
  let ?bf = "bf[nat ?i := (bf ! nat ?i)[nat ?j := 4]]"
  have w: "writeCell bf ?i ?j 4 = Inr ?bf" and g: "gridShaped ?bf"
    using writeCell_shaped [OF Suc.prems, of ?i ?j 4] i j by simp_all
  from Suc.IH [OF g, of "Suc k"] show ?case
    by (simp add: w Let_def)
qed

lemma beatDetect_shaped:
  assumes "\<forall>n. 0 \<le> r n \<and> r n < 1" and "gridShaped (beatFlash s)"
  shows "\<exists>s'. beatDetect s lv r = Inr s' \<and> gridShaped (beatFlash s')"
proof (cases "lv - lastLevel s > 0.1")
  case True
  obtain bf' where "flashLoop r 0 (nat (flashCount lv)) (beatFlash s) = Inr bf'" "gridShaped bf'"
    using flashLoop_shaped [OF assms] by blast
  with True show ?thesis by (simp add: beatDetect_def)
next
  case False
  with assms(2) show ?thesis by (simp add: beatDetect_def)
qed

lemma tickFlash_column:
  "tickFlash bf i j = bf[i := (bf ! i)[j := countDown (bf ! i ! j)]]"
  by (simp add: tickFlash_def countDown_def)

lemma renderRow_prefix:
  "n \<le> length bf \<Longrightarrow>
   fold (\<lambda>i b. tickFlash b i j) [0..<n] bf =
     map (\<lambda>c. c[j := countDown (c ! j)]) (take n bf) @ drop n bf"
proof (induction n)
  case 0
  then show ?case by simp
next
  case (Suc n)
  then have n: "n < length bf" by simp
  let ?g = "\<lambda>c. c[j := countDown (c ! j)]"
  let ?b = "map ?g (take n bf) @ drop n bf"
  have b: "fold (\<lambda>i b. tickFlash b i j) [0..<n] bf = ?b"
    using Suc by simp
  have bn: "?b ! n = bf ! n"
    using n by (simp add: nth_append)
  have "tickFlash ?b n j = ?b[n := ?g (bf ! n)]"
    by (simp only: tickFlash_column bn)
  also have "\<dots> = map ?g (take n bf) @ (drop n bf)[0 := ?g (bf ! n)]"
    using n by (simp add: list_update_append)
  also have "(drop n bf)[0 := ?g (bf ! n)] = ?g (bf ! n) # drop (Suc n) bf"
    using n by (simp add: Cons_nth_drop_Suc [symmetric])
  also have "map ?g (take n bf) @ ?g (bf ! n) # drop (Suc n) bf
      = map ?g (take (Suc n) bf) @ drop (Suc n) bf"
    using n by (simp add: take_Suc_conv_app_nth)
  finally show ?case
    by (simp add: b)
qed

lemma renderRow_map:
  "length bf = cols \<Longrightarrow> renderRow bf j = map (\<lambda>c. c[j := countDown (c ! j)]) bf"
  using renderRow_prefix [of cols bf j] by (simp add: renderRow_def)

lemma column_prefix:
  "n \<le> length c \<Longrightarrow>
   fold (\<lambda>j c. c[j := countDown (c ! j)]) [0..<n] c = map countDown (take n c) @ drop n c"
proof (induction n)
  case 0
  then show ?case by simp
next
  case (Suc n)
  then have n: "n < length c" by simp
  let ?b = "map countDown (take n c) @ drop n c"
  have b: "fold (\<lambda>j c. c[j := countDown (c ! j)]) [0..<n] c = ?b"
    using Suc by simp
  have bn: "?b ! n = c ! n"
    using n by (simp add: nth_append)
  have "?b[n := countDown (?b ! n)] = map countDown (take n c) @ (drop n c)[0 := countDown (c ! n)]"
    using n by (simp add: list_update_append bn del: nth_append_length)
  also have "(drop n c)[0 := countDown (c ! n)] = countDown (c ! n) # drop (Suc n) c"
    using n by (simp add: Cons_nth_drop_Suc [symmetric])
  also have "map countDown (take n c) @ countDown (c ! n) # drop (Suc n) c
      = map countDown (take (Suc n) c) @ drop (Suc n) c"
    using n by (simp add: take_Suc_conv_app_nth)
  finally show ?case
    by (simp add: b)
qed

lemma renderPass_prefix:
  "length bf = cols \<Longrightarrow>
   fold (\<lambda>j b. renderRow b j) [0..<n] bf =
     map (\<lambda>c. fold (\<lambda>j c. c[j := countDown (c ! j)]) [0..<n] c) bf"
proof (induction n)
  case 0
  then show ?case by simp
next
  case (Suc n)
  then show ?case
    by (simp add: renderRow_map)
qed

lemma renderPass_map:
  assumes "gridShaped bf"
  shows "renderPass bf = map (map countDown) bf"
proof -
  have l: "length bf = cols" and r: "\<forall>c \<in> set bf. length c = rows"
    using assms by (simp_all add: gridShaped_def list_all_iff)
  have "renderPass bf = map (\<lambda>c. fold (\<lambda>j c. c[j := countDown (c ! j)]) [0..<rows] c) bf"
    by (simp add: renderPass_def renderPass_prefix [OF l])
  also have "\<dots> = map (map countDown) bf"
    using r by (intro map_cong refl) (simp add: column_prefix)
  finally show ?thesis .
qed

lemma renderPass_shaped: "gridShaped bf \<Longrightarrow> gridShaped (renderPass bf)"
  by (simp add: renderPass_map) (simp add: gridShaped_def list_all_iff)

lemma renderPass_nonneg:
  "gridShaped bf \<Longrightarrow> flashNonneg bf \<Longrightarrow> flashNonneg (renderPass bf)"
  by (simp add: renderPass_map) (auto simp: flashNonneg_def list_all_iff countDown_def)

lemma renderPass_cell:
  "gridShaped bf \<Longrightarrow> i < cols \<Longrightarrow> j < rows \<Longrightarrow> renderPass bf ! i ! j = countDown (bf ! i ! j)"
  by (simp add: renderPass_map gridShaped_def list_all_length)

lemma renderPass_funpow_shaped: "gridShaped bf \<Longrightarrow> gridShaped ((renderPass ^^ n) bf)"
  by (induction n) (simp_all add: renderPass_shaped)

lemma renderPass_funpow_cell:
  "gridShaped bf \<Longrightarrow> i < cols \<Longrightarrow> j < rows \<Longrightarrow>
   (renderPass ^^ n) bf ! i ! j = (countDown ^^ n) (bf ! i ! j)"
  by (induction n) (simp_all add: renderPass_cell renderPass_funpow_shaped)

lemma countDown_funpow: "0 \<le> v \<Longrightarrow> (countDown ^^ n) v = max 0 (v - int n)"
  by (induction n) (auto simp: countDown_def)

subsection \<open>The cells written by the beat pass\<close>

lemma writeCell_Inr:
  assumes "writeCell a i j v = Inr a'"
  shows "0 \<le> i \<and> nat i < length a \<and> 0 \<le> j \<and> nat j < length (a ! nat i)
       \<and> a' = a[nat i := (a ! nat i)[nat j := v]]"
  using assms by (auto simp: writeCell_def split: if_splits)

lemma flashLoop_cells:
  "gridShaped bf \<Longrightarrow> flashLoop r k m bf = Inr bf' \<Longrightarrow> a < cols \<Longrightarrow> b < rows \<Longrightarrow>
   gridShaped bf' \<and>
   bf' ! a ! b =
     (if \<exists>k'. k \<le> k' \<and> k' < k + m \<and> nat (randomIndex (r (2 * k')) cols) = a
            \<and> nat (randomIndex (r (2 * k' + 1)) rows) = b
      then 4 else bf ! a ! b)"
proof (induction m arbitrary: k bf)
  case 0
  then show ?case by auto
next
  case (Suc m)
  let ?i = "randomIndex (r (2 * k)) cols" and ?j = "randomIndex (r (2 * k + 1)) rows"
  from Suc.prems(2) obtain bf1 where w: "writeCell bf ?i ?j 4 = Inr bf1"
    and l: "flashLoop r (Suc k) m bf1 = Inr bf'"
    by (auto simp: Let_def split: sum.splits)
  note wi = writeCell_Inr [OF w]
  have bf1: "bf1 = bf[nat ?i := (bf ! nat ?i)[nat ?j := 4]]"
    using wi by simp
  have len: "length bf = cols" using Suc.prems(1) by (simp add: gridShaped_def)
  have i: "nat ?i < cols" using wi len by simp
  have rw: "length (bf ! nat ?i) = rows" by (rule gridShaped_nth [OF Suc.prems(1) i])
  have j: "nat ?j < rows" using wi rw by simp
  have g1: "gridShaped bf1"
    using Suc.prems(1) i rw unfolding bf1
    by (auto simp: gridShaped_def list_all_length nth_list_update)
  have c1: "bf1 ! a ! b = (if nat ?i = a \<and> nat ?j = b then 4 else bf ! a ! b)"
    using Suc.prems(3,4) i j len rw unfolding bf1
    by (auto simp: nth_list_update)
  note ih = Suc.IH [OF g1 l Suc.prems(3,4)]
  have split: "(\<exists>k'. k \<le> k' \<and> k' < k + Suc m \<and> nat (randomIndex (r (2 * k')) cols) = a
            \<and> nat (randomIndex (r (2 * k' + 1)) rows) = b)
      \<longleftrightarrow> (nat ?i = a \<and> nat ?j = b)
         \<or> (\<exists>k'. Suc k \<le> k' \<and> k' < Suc k + m \<and> nat (randomIndex (r (2 * k')) cols) = a
            \<and> nat (randomIndex (r (2 * k' + 1)) rows) = b)"
    (is "?L \<longleftrightarrow> ?M \<or> ?R")
  proof
    assume ?L
    then obtain k' where k': "k \<le> k'" "k' < k + Suc m"
        "nat (randomIndex (r (2 * k')) cols) = a" "nat (randomIndex (r (2 * k' + 1)) rows) = b"
      by blast
    show "?M \<or> ?R"
    proof (cases "k' = k")
      case True
      with k' show ?thesis by simp
    next
      case False
      with k' have "Suc k \<le> k'" "k' < Suc k + m" by simp_all
      with k'(3,4) show ?thesis by blast
    qed
  next
    assume "?M \<or> ?R"
    then show ?L
    proof
      assume ?M
      then have "k \<le> k \<and> k < k + Suc m \<and> nat (randomIndex (r (2 * k)) cols) = a
            \<and> nat (randomIndex (r (2 * k + 1)) rows) = b" by simp
      then show ?L by blast
    next
      assume ?R
      then obtain k' where "Suc k \<le> k'" "k' < Suc k + m"
        "nat (randomIndex (r (2 * k')) cols) = a" "nat (randomIndex (r (2 * k' + 1)) rows) = b"
        by blast
      then have "k \<le> k' \<and> k' < k + Suc m \<and> nat (randomIndex (r (2 * k')) cols) = a
            \<and> nat (randomIndex (r (2 * k' + 1)) rows) = b" by simp
      then show ?L by blast
    qed
  qed
  show ?case
    unfolding split using ih c1 by auto
qed

lemma flashNonneg_cells:
  "gridShaped bf \<Longrightarrow> flashNonneg bf \<longleftrightarrow> (\<forall>a < cols. \<forall>b < rows. 0 \<le> bf ! a ! b)"
  by (auto simp: gridShaped_def flashNonneg_def list_all_length)

lemma flashLoop_nonneg:
  assumes "gridShaped bf" and "flashNonneg bf" and "flashLoop r k m bf = Inr bf'"
  shows "gridShaped bf' \<and> flashNonneg bf'"
proof -
  have g: "gridShaped bf'"
    using flashLoop_cells [OF assms(1,3), of 0 0] by (simp add: cols_def rows_def)
  have "0 \<le> bf' ! a ! b" if "a < cols" "b < rows" for a b
    using flashLoop_cells [OF assms(1,3) that] assms(2) that
    by (auto simp: flashNonneg_cells [OF assms(1)])
  then show ?thesis
    using g by (simp add: flashNonneg_cells)
qed

subsection \<open>Flash counters and beat detection (claims C7, C10, C3 and C4)\<close>

lemma beatFlash_before_beat:
  "beatFlash (renderCells (recomputePartition (advanceTime (expireGlitch s now) sp) nz str))
     = renderPass (beatFlash s)"
  by (simp add: renderCells_def recomputePartition_def advanceTime_def expireGlitch_def)

lemma draw_beatFlash:
  assumes "draw s f = Inr s'"
  shows "if level f - lastLevel s > 0.1
         then flashLoop (rnd f) 0 (nat (flashCount (level f))) (renderPass (beatFlash s))
                = Inr (beatFlash s')
         else beatFlash s' = renderPass (beatFlash s)"
proof -
  define p where "p = renderCells
          (recomputePartition (advanceTime (expireGlitch s (millis f)) (speed f))
             (noise f) (strength f))"
  have b: "beatFlash p = renderPass (beatFlash s)" and l: "lastLevel p = lastLevel s"
    unfolding p_def by (rule beatFlash_before_beat, rule lastLevel_before_beat)
  have d: "beatDetect p (level f) (rnd f) = Inr s'"
    using assms unfolding draw_def p_def .
  show ?thesis
    using d b unfolding beatDetect_def l
    by (auto split: sum.splits if_splits)
qed

lemma draw_flash_invariant:
  assumes "draw s f = Inr s'" and "gridShaped (beatFlash s)" and "flashNonneg (beatFlash s)"
  shows "gridShaped (beatFlash s') \<and> flashNonneg (beatFlash s')"
proof (cases "level f - lastLevel s > 0.1")
  case True
  then have "flashLoop (rnd f) 0 (nat (flashCount (level f))) (renderPass (beatFlash s))
                = Inr (beatFlash s')"
    using draw_beatFlash [OF assms(1)] by simp
  then show ?thesis
    using renderPass_shaped [OF assms(2)] renderPass_nonneg [OF assms(2,3)]
    by (rule flashLoop_nonneg [rotated 2])
next
  case False
  then have "beatFlash s' = renderPass (beatFlash s)"
    using draw_beatFlash [OF assms(1)] by simp
  then show ?thesis
    using renderPass_shaped [OF assms(2)] renderPass_nonneg [OF assms(2,3)] by simp
qed

lemma spreadGlitch_beatFlash: "beatFlash (spreadGlitch s now i j d) = beatFlash s"
  by (simp add: spreadGlitch_def)

lemma fold_spread_beatFlash:
  "beatFlash (fold (\<lambda>(di, dj) s'. spreadGlitch s' now (i + di) (j + dj) d) offs s) = beatFlash s"
proof (induction offs arbitrary: s)
  case Nil
  then show ?case by simp
next
  case (Cons a offs)
  obtain di dj where a: "a = (di, dj)" by (cases a)
  show ?case by (simp add: a Cons.IH spreadGlitch_beatFlash)
qed

lemma fireTask_beatFlash: "beatFlash (fireTask s now tk) = beatFlash s"
  by (cases tk) (simp_all add: spreadNeighbours_def fold_spread_beatFlash)

lemma mousePressed_beatFlash: "beatFlash (mousePressed s now x y) = beatFlash s"
  by (simp add: mousePressed_def Let_def spreadGlitch_beatFlash)

lemma timerFires_beatFlash: "timerFires s now = Some s' \<Longrightarrow> beatFlash s' = beatFlash s"
  by (auto simp: timerFires_def fireTask_beatFlash split: option.splits prod.splits if_splits)

lemma handle_flash_invariant:
  assumes "handle s e = Inr s'" and "gridShaped (beatFlash s) \<and> flashNonneg (beatFlash s)"
  shows "gridShaped (beatFlash s') \<and> flashNonneg (beatFlash s')"
proof (cases e)
  case (Draw f)
  then show ?thesis
    using assms draw_flash_invariant [of s f s'] by simp
next
  case (MousePressed now x y)
  then show ?thesis
    using assms by (auto simp: mousePressed_beatFlash)
next
  case (TimerTick now)
  then show ?thesis
    using assms by (auto simp: timerFires_beatFlash split: option.splits)
next
  case (PlayPausePressed now)
  then show ?thesis
    using assms by (auto simp: playPausePressed_def)
next
  case ClearPressed
  then show ?thesis
    using assms by (auto simp: clearPressed_def)
qed

lemma run_flash_invariant:
  "run s es = Inr s' \<Longrightarrow> gridShaped (beatFlash s) \<and> flashNonneg (beatFlash s) \<Longrightarrow>
   gridShaped (beatFlash s') \<and> flashNonneg (beatFlash s')"
proof (induction es arbitrary: s)
  case Nil
  then show ?case by simp
next
  case (Cons e es)
  from Cons.prems(1) obtain s1 where h: "handle s e = Inr s1" and r: "run s1 es = Inr s'"
    by (auto split: sum.splits)
  show ?case
    by (rule Cons.IH [OF r handle_flash_invariant [OF h Cons.prems(2)]])
qed

lemma setup_flash: "gridShaped (beatFlash setup_globals) \<and> flashNonneg (beatFlash setup_globals)"
  by (simp add: setup_globals_def gridShaped_def flashNonneg_def list_all_length)

text \<open>
  Claim C7. In an array of the grid's shape, let the flash counter of a cell inside the
  grid be set to 4. After four render passes the counter is 0, after a fifth it is
  still 0, and after \<open>n\<close> passes it is \<open>4 - n\<close> or 0, whichever is larger. A render pass
  changes a counter only by taking 1 off a positive one. And no flash counter is ever
  negative: whatever events the sketch has handled since \<open>setup()\<close>, the array still has
  the grid's shape and holds no negative entry.
\<close>

theorem flash_countdown:
  assumes "gridShaped bf" and "0 \<le> i" and "i < int cols" and "0 \<le> j" and "j < int rows"
  shows "(\<exists>bf4. writeCell bf i j 4 = Inr bf4
            \<and> (renderPass ^^ 4) bf4 ! nat i ! nat j = 0
            \<and> (renderPass ^^ 5) bf4 ! nat i ! nat j = 0
            \<and> (\<forall>n. (renderPass ^^ n) bf4 ! nat i ! nat j = max 0 (4 - int n)))
       \<and> renderPass bf ! nat i ! nat j
            = (if bf ! nat i ! nat j > 0 then bf ! nat i ! nat j - 1 else bf ! nat i ! nat j)
       \<and> (\<forall>es s. run setup_globals es = Inr s \<longrightarrow>
            gridShaped (beatFlash s) \<and> flashNonneg (beatFlash s) \<and> 0 \<le> beatFlash s ! nat i ! nat j)"
proof (intro conjI allI impI)
  let ?bf4 = "bf[nat i := (bf ! nat i)[nat j := 4]]"
  have i: "nat i < cols" and j: "nat j < rows"
    using assms(2-5) by simp_all
  have w: "writeCell bf i j 4 = Inr ?bf4" and g: "gridShaped ?bf4"
    using writeCell_shaped [OF assms] by simp_all
  have r: "length (bf ! nat i) = rows"
    by (rule gridShaped_nth [OF assms(1) i])
  have l: "length bf = cols"
    using assms(1) by (simp add: gridShaped_def)
  have v: "?bf4 ! nat i ! nat j = 4"
    using i j r l by simp
  have n: "(renderPass ^^ n) ?bf4 ! nat i ! nat j = max 0 (4 - int n)" for n
    by (simp add: renderPass_funpow_cell [OF g i j] v countDown_funpow)
  show "\<exists>bf4. writeCell bf i j 4 = Inr bf4
            \<and> (renderPass ^^ 4) bf4 ! nat i ! nat j = 0
            \<and> (renderPass ^^ 5) bf4 ! nat i ! nat j = 0
            \<and> (\<forall>n. (renderPass ^^ n) bf4 ! nat i ! nat j = max 0 (4 - int n))"
    using w n [of 4] n [of 5] n by (intro exI [of _ ?bf4]) simp
  show "renderPass bf ! nat i ! nat j
            = (if bf ! nat i ! nat j > 0 then bf ! nat i ! nat j - 1 else bf ! nat i ! nat j)"
    by (simp add: renderPass_cell [OF assms(1) i j] countDown_def)
  fix es s assume "run setup_globals es = Inr s"
  then have inv: "gridShaped (beatFlash s) \<and> flashNonneg (beatFlash s)"
    using setup_flash by (rule run_flash_invariant)
  then show "gridShaped (beatFlash s)" and "flashNonneg (beatFlash s)"
    by simp_all
  show "0 \<le> beatFlash s ! nat i ! nat j"
    using inv i j flashNonneg_cells [of "beatFlash s"] by blast
qed

theorem flash_countdown_witness:
  "gridShaped (beatFlash setup_globals)
   \<and> (\<exists>bf4. writeCell (beatFlash setup_globals) 3 4 4 = Inr bf4
          \<and> (renderPass ^^ 4) bf4 ! 3 ! 4 = 0 \<and> (renderPass ^^ 5) bf4 ! 3 ! 4 = 0)
   \<and> (\<exists>s. run setup_globals [Draw calmFrame] = Inr s \<and> flashNonneg (beatFlash s))"
proof -
  have g: "gridShaped (beatFlash setup_globals)"
    using setup_flash by simp
  have b: "(0::int) \<le> 3" "(3::int) < int cols" "(0::int) \<le> 4" "(4::int) < int rows"
    by (simp_all add: cols_def rows_def)
  have "level calmFrame - lastLevel setup_globals \<le> 0.1"
    by (simp add: calmFrame_def setup_globals_def)
  then obtain s where "draw setup_globals calmFrame = Inr s"
    using draw_quiet by blast
  then have r: "run setup_globals [Draw calmFrame] = Inr s"
    by simp
  note t = flash_countdown [OF g b]
  from t r have "flashNonneg (beatFlash s)"
    by blast
  with r have "\<exists>s. run setup_globals [Draw calmFrame] = Inr s \<and> flashNonneg (beatFlash s)"
    by blast
  moreover from t have "\<exists>bf4. writeCell (beatFlash setup_globals) 3 4 4 = Inr bf4
          \<and> (renderPass ^^ 4) bf4 ! 3 ! 4 = 0 \<and> (renderPass ^^ 5) bf4 ! 3 ! 4 = 0"
    by (simp only: nat_numeral) blast
  ultimately show ?thesis
    using g by blast
qed

lemma draw_shaped:
  assumes "\<forall>n. 0 \<le> rnd f n \<and> rnd f n < 1" and "gridShaped (beatFlash s)"
  shows "\<exists>s'. draw s f = Inr s' \<and> gridShaped (beatFlash s')"
  unfolding draw_def
  by (rule beatDetect_shaped [OF assms(1)])
     (simp add: beatFlash_before_beat renderPass_shaped [OF assms(2)])

lemma run_total:
  "list_all (\<lambda>f. \<forall>n. 0 \<le> rnd f n \<and> rnd f n < 1) (framesOf es) \<Longrightarrow>
   gridShaped (beatFlash s) \<and> flashNonneg (beatFlash s) \<Longrightarrow> \<exists>s'. run s es = Inr s'"
proof (induction es arbitrary: s)
  case Nil
  then show ?case by simp
next
  case (Cons e es)
  have "\<exists>s1. handle s e = Inr s1"
  proof (cases e)
    case (Draw f)
    then show ?thesis
      using Cons.prems draw_shaped [of f s] by auto
  qed simp_all
  then obtain s1 where h: "handle s e = Inr s1" ..
  have "list_all (\<lambda>f. \<forall>n. 0 \<le> rnd f n \<and> rnd f n < 1) (framesOf es)"
    using Cons.prems(1) by (cases e) simp_all
  from Cons.IH [OF this handle_flash_invariant [OF h Cons.prems(2)]] h
  show ?case by simp
qed

text \<open>
  Claim C10. When every value of the random generator lies in the interval from 0 up
  to, not including, 1, the column index of every iteration of the beat pass lies in
  \<open>[0, cols)\<close> and the row index in \<open>[0, rows)\<close>; on a flash array of the grid's shape
  \<open>draw\<close> then returns normally, with the array's shape unchanged, and so does every
  run of the sketch from \<open>setup()\<close> on: no write of the beat pass leaves the array.
\<close>

theorem flash_indices_in_range:
  assumes "\<forall>n. 0 \<le> rnd f n \<and> rnd f n < 1" and "gridShaped (beatFlash s)"
  shows "(\<forall>k. 0 \<le> randomIndex (rnd f (2 * k)) cols \<and> randomIndex (rnd f (2 * k)) cols < int cols
            \<and> 0 \<le> randomIndex (rnd f (2 * k + 1)) rows
            \<and> randomIndex (rnd f (2 * k + 1)) rows < int rows)
       \<and> (\<exists>s'. draw s f = Inr s' \<and> gridShaped (beatFlash s'))
       \<and> (\<forall>es. list_all (\<lambda>f. \<forall>n. 0 \<le> rnd f n \<and> rnd f n < 1) (framesOf es) \<longrightarrow>
             (\<exists>s'. run setup_globals es = Inr s'))"
proof (intro conjI allI impI)
  have c: "0 < cols" and r: "0 < rows"
    by (simp_all add: cols_def rows_def)
  fix k
  show "0 \<le> randomIndex (rnd f (2 * k)) cols" "randomIndex (rnd f (2 * k)) cols < int cols"
    using randomIndex_range [OF _ _ c, of "rnd f (2 * k)"] assms(1) by simp_all
  show "0 \<le> randomIndex (rnd f (2 * k + 1)) rows" "randomIndex (rnd f (2 * k + 1)) rows < int rows"
    using randomIndex_range [OF _ _ r, of "rnd f (2 * k + 1)"] assms(1) by simp_all
next
  show "\<exists>s'. draw s f = Inr s' \<and> gridShaped (beatFlash s')"
    by (rule draw_shaped [OF assms])
next
  fix es assume "list_all (\<lambda>f. \<forall>n. 0 \<le> rnd f n \<and> rnd f n < 1) (framesOf es)"
  then show "\<exists>s'. run setup_globals es = Inr s'"
    using setup_flash by (rule run_total)
qed

theorem flash_indices_in_range_witness:
  "randomIndex (rnd loudFrame 0) cols = 7 \<and> randomIndex (rnd loudFrame 1) rows = 5
   \<and> (\<exists>s'. draw setup_globals loudFrame = Inr s' \<and> gridShaped (beatFlash s'))
   \<and> (\<exists>s'. run setup_globals [Draw loudFrame, Draw loudFrame] = Inr s')"
proof -
  have 1: "\<forall>n. 0 \<le> rnd loudFrame n \<and> rnd loudFrame n < 1"
    by (simp add: loudFrame_def)
  have 2: "gridShaped (beatFlash setup_globals)"
    using setup_flash by simp
  have 3: "list_all (\<lambda>f. \<forall>n. 0 \<le> rnd f n \<and> rnd f n < 1) (framesOf [Draw loudFrame, Draw loudFrame])"
    using 1 by simp
  have "randomIndex (rnd loudFrame 0) cols = 7" "randomIndex (rnd loudFrame 1) rows = 5"
    by (simp_all add: loudFrame_def randomIndex_def cols_def rows_def)
  then show ?thesis
    using flash_indices_in_range [OF 1 2] 3 by blast
qed

text \<open>
  In the exact arithmetic of this model the mapped level is 37.5 times the level. The
  lemma only serves to bound the floor below; no property is stated in this form.
\<close>

lemma flashCount_linear: "flashCount lv = \<lfloor>lv * 75 / 2\<rfloor>"
proof -
  have "p5_map lv 0 0.4 0 15 = lv * 75 / 2"
    by (simp add: p5_map_def)
  then show ?thesis
    by (simp only: flashCount_def)
qed

text \<open>
  Claim C3, as the code has it. The number of cells to flash is
  \<open>floor(map(level, 0, 0.4, 0, 15))\<close>, and this is the number of iterations of the beat
  pass. For a level between 0 and 0.4 it lies between 0 and 15. Nothing clamps it: above
  0.4 it is at least 15, and from 32/75 (about 0.427) on it is 16 or more.
\<close>

theorem flashCount_unclamped:
  "flashCount lv = \<lfloor>p5_map lv 0 0.4 0 15\<rfloor>
   \<and> (0 \<le> lv \<and> lv \<le> 0.4 \<longrightarrow> 0 \<le> flashCount lv \<and> flashCount lv \<le> 15)
   \<and> (0.4 < lv \<longrightarrow> 15 \<le> flashCount lv)
   \<and> (32 / 75 \<le> lv \<longrightarrow> 16 \<le> flashCount lv)
   \<and> (lv - lastLevel s > 0.1 \<longrightarrow>
        beatDetect s lv r =
          (case flashLoop r 0 (nat (flashCount lv)) (beatFlash s) of
             Inl e \<Rightarrow> Inl e
           | Inr bf \<Rightarrow> Inr (s\<lparr>beatFlash := bf, lastLevel := lv\<rparr>)))"
proof (intro conjI impI)
  show "flashCount lv = \<lfloor>p5_map lv 0 0.4 0 15\<rfloor>"
    by (simp add: flashCount_def)
  show "0 \<le> flashCount lv" if "0 \<le> lv \<and> lv \<le> 0.4"
    using that by (simp add: flashCount_linear)
  show "flashCount lv \<le> 15" if "0 \<le> lv \<and> lv \<le> 0.4"
  proof -
    have "lv * 75 / 2 < 16" using that by simp
    then have "\<lfloor>lv * 75 / 2\<rfloor> < 16" by (simp add: floor_less_iff)
    then show ?thesis by (simp add: flashCount_linear)
  qed
  show "15 \<le> flashCount lv" if "0.4 < lv"
    using that by (simp add: flashCount_linear le_floor_iff)
  show "16 \<le> flashCount lv" if "32 / 75 \<le> lv"
    using that by (simp add: flashCount_linear le_floor_iff)
  show "beatDetect s lv r =
          (case flashLoop r 0 (nat (flashCount lv)) (beatFlash s) of
             Inl e \<Rightarrow> Inl e
           | Inr bf \<Rightarrow> Inr (s\<lparr>beatFlash := bf, lastLevel := lv\<rparr>))"
    if "lv - lastLevel s > 0.1"
    using that by (simp add: beatDetect_def)
qed

theorem flashCount_unclamped_witness:
  "(0::real) \<le> 1 / 5 \<and> (1 / 5 :: real) \<le> 0.4 \<and> flashCount (1 / 5) \<le> 15
   \<and> (0.4 :: real) < 1 / 2 \<and> 32 / 75 \<le> (1 / 2 :: real) \<and> 16 \<le> flashCount (1 / 2)
   \<and> 1 / 2 - lastLevel setup_globals > 0.1
   \<and> beatDetect setup_globals (1 / 2) (\<lambda>k. 0) =
        (case flashLoop (\<lambda>k. 0) 0 (nat (flashCount (1 / 2))) (beatFlash setup_globals) of
             Inl e \<Rightarrow> Inl e
           | Inr bf \<Rightarrow> Inr (setup_globals\<lparr>beatFlash := bf, lastLevel := 1 / 2\<rparr>))"
proof -
  have l: "1 / 2 - lastLevel setup_globals > 0.1"
    by (simp add: setup_globals_def)
  have a: "(0::real) \<le> 1 / 5 \<and> (1 / 5 :: real) \<le> 0.4"
    and b: "(0.4 :: real) < 1 / 2" and c: "32 / 75 \<le> (1 / 2 :: real)"
    by simp_all
  note low = flashCount_unclamped [of "1 / 5" setup_globals "\<lambda>k. 0"]
  note high = flashCount_unclamped [of "1 / 2" setup_globals "\<lambda>k. 0"]
  from low a have "flashCount (1 / 5) \<le> 15"
    by blast
  moreover from high c have "16 \<le> flashCount (1 / 2)"
    by blast
  moreover from high l have "beatDetect setup_globals (1 / 2) (\<lambda>k. 0) =
        (case flashLoop (\<lambda>k. 0) 0 (nat (flashCount (1 / 2))) (beatFlash setup_globals) of
             Inl e \<Rightarrow> Inl e
           | Inr bf \<Rightarrow> Inr (setup_globals\<lparr>beatFlash := bf, lastLevel := 1 / 2\<rparr>))"
    by blast
  ultimately show ?thesis
    using a b c l by blast
qed

text \<open>
  The claim's clamp fails at level 0.5, which is above 0.4: the count is 18, not 15.
\<close>

theorem flashCount_clamp_counterexample:
  "(0.4 :: real) < 1 / 2 \<and> flashCount (1 / 2) = 18 \<and> flashCount (1 / 2) \<noteq> 15"
  by (simp add: flashCount_def p5_map_def)

lemma flashCount_035: "flashCount 0.35 = 13"
  by (simp add: flashCount_def p5_map_def)

lemma flashCount_spike:
  assumes "lv - l > 0.1" and "0 \<le> l"
  shows "3 \<le> flashCount lv"
proof -
  have "3 \<le> lv * 75 / 2" using assms by simp
  then show ?thesis by (simp add: flashCount_linear le_floor_iff)
qed

text \<open>
  Claim C4. The beat pass leaves \<open>lastLevel\<close> equal to the new level whenever it
  returns. When the level does not exceed \<open>lastLevel\<close> by more than 0.1 it changes
  nothing else: no flash counter is touched. When it does (with \<open>lastLevel\<close> not
  negative, a flash array of the grid's shape and random values in \<open>[0, 1)\<close>), the pass
  runs \<open>flashCount\<close> iterations, at least 3, the cell picked by each of them has its
  counter at 4 afterwards, and every other counter is unchanged. From \<open>lastLevel = 0\<close>,
  the level 0.1 fires nothing and stores 0.1; a following level 0.35 runs the loop 13
  times, and a following level 0.15 fires nothing.
\<close>

theorem beat_spike_detection:
  "(\<forall>s'. beatDetect s lv r = Inr s' \<longrightarrow> lastLevel s' = lv)
   \<and> (\<not> lv - lastLevel s > 0.1 \<longrightarrow> beatDetect s lv r = Inr (s\<lparr>lastLevel := lv\<rparr>))
   \<and> (lv - lastLevel s > 0.1 \<and> 0 \<le> lastLevel s \<and> gridShaped (beatFlash s)
        \<and> (\<forall>n. 0 \<le> r n \<and> r n < 1) \<longrightarrow>
        (\<exists>s'. beatDetect s lv r = Inr s' \<and> lastLevel s' = lv \<and> 3 \<le> flashCount lv
           \<and> (\<forall>k < nat (flashCount lv).
                 beatFlash s' ! nat (randomIndex (r (2 * k)) cols)
                              ! nat (randomIndex (r (2 * k + 1)) rows) = 4)
           \<and> (\<forall>a < cols. \<forall>b < rows.
                 beatFlash s' ! a ! b = 4 \<or> beatFlash s' ! a ! b = beatFlash s ! a ! b)))
   \<and> (lastLevel s = 0 \<longrightarrow>
        beatDetect s 0.1 r = Inr (s\<lparr>lastLevel := 0.1\<rparr>)
        \<and> flashCount 0.35 = 13
        \<and> beatDetect (s\<lparr>lastLevel := 0.1\<rparr>) 0.35 r' =
             (case flashLoop r' 0 13 (beatFlash s) of
                Inl e \<Rightarrow> Inl e
              | Inr bf \<Rightarrow> Inr (s\<lparr>beatFlash := bf, lastLevel := 0.35\<rparr>))
        \<and> beatDetect (s\<lparr>lastLevel := 0.1\<rparr>) 0.15 r' = Inr (s\<lparr>lastLevel := 0.15\<rparr>))"
proof (intro conjI allI impI)
  fix s' assume "beatDetect s lv r = Inr s'"
  then show "lastLevel s' = lv"
    by (auto dest: beatDetect_fields)
next
  assume "\<not> lv - lastLevel s > 0.1"
  then show "beatDetect s lv r = Inr (s\<lparr>lastLevel := lv\<rparr>)"
    by (simp add: beatDetect_def)
next
  assume a: "lv - lastLevel s > 0.1 \<and> 0 \<le> lastLevel s \<and> gridShaped (beatFlash s)
        \<and> (\<forall>n. 0 \<le> r n \<and> r n < 1)"
  then have g: "gridShaped (beatFlash s)" and rr: "\<forall>n. 0 \<le> r n \<and> r n < 1"
    by simp_all
  obtain bf where l: "flashLoop r 0 (nat (flashCount lv)) (beatFlash s) = Inr bf"
    using flashLoop_shaped [OF rr g] by blast
  let ?s' = "s\<lparr>beatFlash := bf, lastLevel := lv\<rparr>"
  have d: "beatDetect s lv r = Inr ?s'"
    using a l by (simp add: beatDetect_def)
  have c: "0 < cols" and rw: "0 < rows"
    by (simp_all add: cols_def rows_def)
  have picked: "bf ! nat (randomIndex (r (2 * k)) cols) ! nat (randomIndex (r (2 * k + 1)) rows) = 4"
    if "k < nat (flashCount lv)" for k
  proof -
    have i: "nat (randomIndex (r (2 * k)) cols) < cols"
      using randomIndex_range [OF _ _ c, of "r (2 * k)"] rr by (simp add: nat_less_iff)
    have j: "nat (randomIndex (r (2 * k + 1)) rows) < rows"
      using randomIndex_range [OF _ _ rw, of "r (2 * k + 1)"] rr by (simp add: nat_less_iff)
    have "\<exists>k'. 0 \<le> k' \<and> k' < 0 + nat (flashCount lv)
        \<and> nat (randomIndex (r (2 * k')) cols) = nat (randomIndex (r (2 * k)) cols)
        \<and> nat (randomIndex (r (2 * k' + 1)) rows) = nat (randomIndex (r (2 * k + 1)) rows)"
      using that by (intro exI [of _ k]) simp
    then show ?thesis
      using flashLoop_cells [OF g l i j] by simp
  qed
  have other: "bf ! a ! b = 4 \<or> bf ! a ! b = beatFlash s ! a ! b" if "a < cols" "b < rows" for a b
    using flashLoop_cells [OF g l that] by (simp split: if_splits)
  show "\<exists>s'. beatDetect s lv r = Inr s' \<and> lastLevel s' = lv \<and> 3 \<le> flashCount lv
           \<and> (\<forall>k < nat (flashCount lv).
                 beatFlash s' ! nat (randomIndex (r (2 * k)) cols)
                              ! nat (randomIndex (r (2 * k + 1)) rows) = 4)
           \<and> (\<forall>a < cols. \<forall>b < rows.
                 beatFlash s' ! a ! b = 4 \<or> beatFlash s' ! a ! b = beatFlash s ! a ! b)"
    using d picked other flashCount_spike [of lv "lastLevel s"] a
    by (intro exI [of _ ?s']) simp
next
  assume z: "lastLevel s = 0"
  show "beatDetect s 0.1 r = Inr (s\<lparr>lastLevel := 0.1\<rparr>)"
    using z by (simp add: beatDetect_def)
  show "flashCount 0.35 = 13"
    by (rule flashCount_035)
  show "beatDetect (s\<lparr>lastLevel := 0.1\<rparr>) 0.35 r' =
             (case flashLoop r' 0 13 (beatFlash s) of
                Inl e \<Rightarrow> Inl e
              | Inr bf \<Rightarrow> Inr (s\<lparr>beatFlash := bf, lastLevel := 0.35\<rparr>))"
    using flashCount_035 by (simp add: beatDetect_def split: sum.splits)
  show "beatDetect (s\<lparr>lastLevel := 0.1\<rparr>) 0.15 r' = Inr (s\<lparr>lastLevel := 0.15\<rparr>)"
    by (simp add: beatDetect_def)
qed

theorem beat_spike_detection_witness:
  "lastLevel setup_globals = 0
   \<and> beatDetect setup_globals 0.1 (\<lambda>k. 1 / 2) = Inr (setup_globals\<lparr>lastLevel := 0.1\<rparr>)
   \<and> (\<exists>s'. beatDetect (setup_globals\<lparr>lastLevel := 0.1\<rparr>) 0.35 (\<lambda>k. 1 / 2) = Inr s'
          \<and> lastLevel s' = 0.35 \<and> beatFlash s' ! 7 ! 5 = 4)
   \<and> beatDetect (setup_globals\<lparr>lastLevel := 0.1\<rparr>) 0.15 (\<lambda>k. 1 / 2)
        = Inr (setup_globals\<lparr>lastLevel := 0.15\<rparr>)"
proof -
  let ?s1 = "setup_globals\<lparr>lastLevel := 0.1\<rparr>" and ?r = "\<lambda>k :: nat. 1 / 2 :: real"
  have z: "lastLevel setup_globals = 0"
    by (simp add: setup_globals_def)
  have h: "0.35 - lastLevel ?s1 > 0.1 \<and> 0 \<le> lastLevel ?s1 \<and> gridShaped (beatFlash ?s1)
        \<and> (\<forall>n. 0 \<le> ?r n \<and> ?r n < 1)"
    using setup_flash by simp
  have i: "nat (randomIndex (?r (2 * 0)) cols) = 7" "nat (randomIndex (?r (2 * 0 + 1)) rows) = 5"
    by (simp_all add: randomIndex_def cols_def rows_def)
  from beat_spike_detection [of ?s1 "0.35" ?r] h
  obtain s' where s': "beatDetect ?s1 0.35 ?r = Inr s'" "lastLevel s' = 0.35"
      "\<forall>k < nat (flashCount 0.35).
                 beatFlash s' ! nat (randomIndex (?r (2 * k)) cols)
                              ! nat (randomIndex (?r (2 * k + 1)) rows) = 4"
    by blast
  have "(0::nat) < nat (flashCount 0.35)"
    using flashCount_035 by simp
  with s'(3) have "beatFlash s' ! nat (randomIndex (?r (2 * 0)) cols)
                              ! nat (randomIndex (?r (2 * 0 + 1)) rows) = 4"
    by blast
  then have "beatFlash s' ! 7 ! 5 = 4"
    unfolding i .
  with s'(1,2) have "\<exists>s'. beatDetect ?s1 0.35 ?r = Inr s' \<and> lastLevel s' = 0.35 \<and> beatFlash s' ! 7 ! 5 = 4"
    by blast
  then show ?thesis
    using beat_spike_detection [of setup_globals "0.1" ?r ?r] z by blast
qed

end
